theory Spec2Isabelle
  imports Complex_Main "HOL-Library.Sublist"
begin

section \<open>LRU cache with TTL (src/utils/cache.ts, class LRUCache)\<close>

text \<open>
  Times are the millisecond readings of \<^verbatim>\<open>Date.now()\<close>, passed in as \<open>now\<close>.
  A cached value is a string, an object (given by what \<^verbatim>\<open>JSON.stringify\<close> returns for it,
  \<open>None\<close> when that call throws or yields no string) or another primitive.
\<close>

datatype cvalue = VString string | VObject "string option" | VPrim

record entry =
  entry_value :: cvalue
  timestamp :: int
  accessCount :: nat
  lastAccessed :: int
  entry_size :: nat

text \<open>
  A JavaScript \<^verbatim>\<open>Map\<close> iterates in insertion order: it is an association list with the
  oldest insertion first. \<^verbatim>\<open>Map.set\<close> on a present key keeps the key's position,
  on an absent key it appends.
\<close>

type_synonym 'v jsmap = "(string \<times> 'v) list"

definition Map_get :: "string \<Rightarrow> 'v jsmap \<Rightarrow> 'v option" where
  "Map_get k m = map_of m k"

definition Map_has :: "string \<Rightarrow> 'v jsmap \<Rightarrow> bool" where
  "Map_has k m = (map_of m k \<noteq> None)"

fun Map_set :: "string \<Rightarrow> 'v \<Rightarrow> 'v jsmap \<Rightarrow> 'v jsmap" where
  "Map_set k v [] = [(k, v)]"
| "Map_set k v (p # m) = (if fst p = k then (k, v) # m else p # Map_set k v m)"

definition Map_delete :: "string \<Rightarrow> 'v jsmap \<Rightarrow> 'v jsmap" where
  "Map_delete k m = filter (\<lambda>p. fst p \<noteq> k) m"

definition Map_keys :: "'v jsmap \<Rightarrow> string list" where
  "Map_keys m = map fst m"

text \<open>
  The configuration of a cache. \<^verbatim>\<open>maxSize\<close> and \<^verbatim>\<open>ttl\<close> are JavaScript numbers that the
  constructor takes as they come (from its options, or from \<^verbatim>\<open>parseInt\<close> of an environment
  variable, which is \<^verbatim>\<open>NaN\<close> for a malformed one): a number is \<^verbatim>\<open>NaN\<close>, an infinity or a
  finite value, whole or not.
\<close>

datatype number = NaN | NegInfinity | Num real | Infinity

text \<open>
  The comparisons of the source, between an integer (a map's size, a difference of two
  times) and a number. Every comparison with \<^verbatim>\<open>NaN\<close> is false.
\<close>

definition size_ge :: "nat \<Rightarrow> number \<Rightarrow> bool" where
  "size_ge n x =
     (case x of NaN \<Rightarrow> False | NegInfinity \<Rightarrow> True | Num r \<Rightarrow> real n \<ge> r | Infinity \<Rightarrow> False)"

definition size_le :: "nat \<Rightarrow> number \<Rightarrow> bool" where
  "size_le n x =
     (case x of NaN \<Rightarrow> False | NegInfinity \<Rightarrow> False | Num r \<Rightarrow> real n \<le> r | Infinity \<Rightarrow> True)"

definition age_gt :: "int \<Rightarrow> number \<Rightarrow> bool" where
  "age_gt a x =
     (case x of NaN \<Rightarrow> False | NegInfinity \<Rightarrow> True | Num r \<Rightarrow> real_of_int a > r
      | Infinity \<Rightarrow> False)"

text \<open>A number that counts entries: a whole number, not negative.\<close>

definition isCount :: "real \<Rightarrow> bool" where
  "isCount r = (0 \<le> r \<and> real_of_int \<lfloor>r\<rfloor> = r)"

record cache_config =
  maxSize :: number
  ttl :: number
  enabled :: bool

record cache =
  entries :: "entry jsmap"
  hits :: nat
  misses :: nat
  evictions :: nat

definition new_cache :: cache where
  "new_cache = \<lparr>entries = [], hits = 0, misses = 0, evictions = 0\<rparr>"

definition cache_size :: "cache \<Rightarrow> nat" where
  "cache_size c = length (entries c)"

definition estimateSize :: "cvalue \<Rightarrow> nat" where
  "estimateSize v =
     (case v of
        VString s \<Rightarrow> length s * 2
      | VObject (Some js) \<Rightarrow> length js * 2
      | VObject None \<Rightarrow> 64
      | VPrim \<Rightarrow> 64)"

definition expired :: "cache_config \<Rightarrow> int \<Rightarrow> entry \<Rightarrow> bool" where
  "expired cfg now e = age_gt (now - timestamp e) (ttl cfg)"

definition LRUCache_get :: "cache_config \<Rightarrow> int \<Rightarrow> string \<Rightarrow> cache \<Rightarrow> cvalue option \<times> cache" where
  "LRUCache_get cfg now key c =
     (if \<not> enabled cfg then (None, c)
      else case Map_get key (entries c) of
        None \<Rightarrow> (None, c\<lparr>misses := misses c + 1\<rparr>)
      | Some e \<Rightarrow>
          if expired cfg now e
          then (None, c\<lparr>entries := Map_delete key (entries c), misses := misses c + 1\<rparr>)
          else
            let e' = e\<lparr>accessCount := accessCount e + 1, lastAccessed := now\<rparr>
            in (Some (entry_value e'),
                c\<lparr>entries := Map_set key e' (Map_delete key (entries c)),
                  hits := hits c + 1\<rparr>))"

text \<open>
  \<^verbatim>\<open>evictLRU\<close> takes the first key of the map and deletes it \<^verbatim>\<open>if (firstKey)\<close>: the test
  is JavaScript truthiness, so nothing happens on an empty map (the key is undefined)
  and nothing happens when the first key is the empty string.
\<close>

definition evictLRU :: "cache \<Rightarrow> cache" where
  "evictLRU c =
     (case Map_keys (entries c) of
        [] \<Rightarrow> c
      | firstKey # _ \<Rightarrow>
          if firstKey \<noteq> []
          then c\<lparr>entries := Map_delete firstKey (entries c), evictions := evictions c + 1\<rparr>
          else c)"

text \<open>
  The loop \<^verbatim>\<open>while (this.cache.size >= this.maxSize) this.evictLRU()\<close> of \<^verbatim>\<open>set\<close>.
  It need not end (an eviction may remove nothing), so it is a partial function:
  \<open>None\<close> is the loop that runs forever.
\<close>

partial_function (option) evict_while_full :: "cache_config \<Rightarrow> cache \<Rightarrow> cache option" where
  "evict_while_full cfg c =
     (if size_ge (cache_size c) (maxSize cfg) then evict_while_full cfg (evictLRU c)
      else Some c)"

declare evict_while_full.simps [code]

text \<open>
  What the loop leaves of the size once the new entry is in: the size that was not
  \<^verbatim>\<open>>= maxSize\<close>, plus one. The empty cache is within any bound.
\<close>

definition bounded_by :: "number \<Rightarrow> nat \<Rightarrow> bool" where
  "bounded_by x n =
     (n = 0 \<or>
      (case x of NaN \<Rightarrow> True | NegInfinity \<Rightarrow> False | Num r \<Rightarrow> real n < r + 1
       | Infinity \<Rightarrow> True))"

definition new_entry :: "int \<Rightarrow> cvalue \<Rightarrow> entry" where
  "new_entry now v =
     \<lparr>entry_value = v, timestamp = now, accessCount = 1, lastAccessed = now,
      entry_size = estimateSize v\<rparr>"

definition LRUCache_set :: "cache_config \<Rightarrow> int \<Rightarrow> string \<Rightarrow> cvalue \<Rightarrow> cache \<Rightarrow> cache option" where
  "LRUCache_set cfg now key v c =
     (if \<not> enabled cfg then Some c
      else
        let c1 = (if Map_has key (entries c)
                  then c\<lparr>entries := Map_delete key (entries c)\<rparr> else c)
        in (case evict_while_full cfg c1 of
              None \<Rightarrow> None
            | Some c2 \<Rightarrow> Some (c2\<lparr>entries := Map_set key (new_entry now v) (entries c2)\<rparr>)))"

definition LRUCache_has :: "cache_config \<Rightarrow> int \<Rightarrow> string \<Rightarrow> cache \<Rightarrow> bool \<times> cache" where
  "LRUCache_has cfg now key c =
     (if \<not> enabled cfg then (False, c)
      else case Map_get key (entries c) of
        None \<Rightarrow> (False, c)
      | Some e \<Rightarrow>
          if expired cfg now e
          then (False, c\<lparr>entries := Map_delete key (entries c)\<rparr>)
          else (True, c))"

definition LRUCache_delete :: "cache_config \<Rightarrow> string \<Rightarrow> cache \<Rightarrow> bool \<times> cache" where
  "LRUCache_delete cfg key c =
     (if \<not> enabled cfg then (False, c)
      else (Map_has key (entries c), c\<lparr>entries := Map_delete key (entries c)\<rparr>))"

definition LRUCache_clear :: "cache \<Rightarrow> cache" where
  "LRUCache_clear c = \<lparr>entries = [], hits = 0, misses = 0, evictions = 0\<rparr>"

definition cleanup :: "cache_config \<Rightarrow> int \<Rightarrow> cache \<Rightarrow> cache" where
  "cleanup cfg now c = c\<lparr>entries := filter (\<lambda>p. \<not> expired cfg now (snd p)) (entries c)\<rparr>"

text \<open>A call of one of the cache's methods, and a sequence of calls, each at its own time.\<close>

datatype cache_op =
    Set string cvalue
  | Get string
  | Has string
  | Delete string
  | Clear
  | Cleanup

definition apply_op :: "cache_config \<Rightarrow> int \<Rightarrow> cache_op \<Rightarrow> cache \<Rightarrow> cache option" where
  "apply_op cfg now opn c =
     (case opn of
        Set k v \<Rightarrow> LRUCache_set cfg now k v c
      | Get k \<Rightarrow> Some (snd (LRUCache_get cfg now k c))
      | Has k \<Rightarrow> Some (snd (LRUCache_has cfg now k c))
      | Delete k \<Rightarrow> Some (snd (LRUCache_delete cfg k c))
      | Clear \<Rightarrow> Some (LRUCache_clear c)
      | Cleanup \<Rightarrow> Some (cleanup cfg now c))"

text \<open>Whether an operation is a \<^verbatim>\<open>set\<close> of the given key.\<close>

fun sets_key :: "string \<Rightarrow> cache_op \<Rightarrow> bool" where
  "sets_key k (Set k' v) = (k' = k)"
| "sets_key k _ = False"

fun run_ops :: "cache_config \<Rightarrow> (int \<times> cache_op) list \<Rightarrow> cache \<Rightarrow> cache option" where
  "run_ops cfg [] c = Some c"
| "run_ops cfg ((now, opn) # rest) c =
     (case apply_op cfg now opn c of None \<Rightarrow> None | Some c' \<Rightarrow> run_ops cfg rest c')"


section \<open>Fixed-window rate limiter (src/utils/rateLimiter.ts, class RateLimiter)\<close>

record RateLimitEntry =
  count :: int
  resetTime :: int
  firstRequest :: int

record RateLimitResult =
  allowed :: bool
  remaining :: int
  result_resetTime :: int
  retryAfter :: "int option"

record rate_config =
  windowMs :: int
  maxRequests :: int
  rateLimiting_enabled :: bool

type_synonym rate_store = "string \<rightharpoonup> RateLimitEntry"

text \<open>
  \<^verbatim>\<open>Math.ceil(x / 1000)\<close> for an integer number \<open>x\<close> of milliseconds, in integer
  arithmetic (\<open>div\<close> rounds down).
\<close>

definition ceil_seconds :: "int \<Rightarrow> int" where
  "ceil_seconds x = - ((- x) div 1000)"

definition fresh_window :: "rate_config \<Rightarrow> int \<Rightarrow> RateLimitEntry" where
  "fresh_window cfg now = \<lparr>count = 1, resetTime = now + windowMs cfg, firstRequest = now\<rparr>"

definition checkLimit ::
  "rate_config \<Rightarrow> int \<Rightarrow> string \<Rightarrow> rate_store \<Rightarrow> RateLimitResult \<times> rate_store" where
  "checkLimit cfg now identifier store =
     (if \<not> rateLimiting_enabled cfg
      then (\<lparr>allowed = True, remaining = maxRequests cfg,
             result_resetTime = now + windowMs cfg, retryAfter = None\<rparr>, store)
      else case store identifier of
        None \<Rightarrow>
          (\<lparr>allowed = True, remaining = maxRequests cfg - 1,
            result_resetTime = now + windowMs cfg, retryAfter = None\<rparr>,
           store(identifier \<mapsto> fresh_window cfg now))
      | Some e \<Rightarrow>
          if now \<ge> resetTime e
          then (\<lparr>allowed = True, remaining = maxRequests cfg - 1,
                 result_resetTime = now + windowMs cfg, retryAfter = None\<rparr>,
                store(identifier \<mapsto> fresh_window cfg now))
          else if count e \<ge> maxRequests cfg
          then (\<lparr>allowed = False, remaining = 0, result_resetTime = resetTime e,
                 retryAfter = Some (ceil_seconds (resetTime e - now))\<rparr>, store)
          else
            let e' = e\<lparr>count := count e + 1\<rparr>
            in (\<lparr>allowed = True, remaining = maxRequests cfg - count e',
                 result_resetTime = resetTime e', retryAfter = None\<rparr>,
                store(identifier \<mapsto> e')))"


definition reset :: "string \<Rightarrow> rate_store \<Rightarrow> rate_store" where
  "reset identifier store = store(identifier := None)"

definition RateLimiter_cleanup :: "int \<Rightarrow> rate_store \<Rightarrow> rate_store" where
  "RateLimiter_cleanup now store =
     (\<lambda>identifier. case store identifier of
        None \<Rightarrow> None
      | Some e \<Rightarrow> if now \<ge> resetTime e then None else Some e)"

text \<open>Consecutive \<^verbatim>\<open>checkLimit\<close> calls for one identifier, one per given time.\<close>

fun checkLimit_calls ::
  "rate_config \<Rightarrow> string \<Rightarrow> int list \<Rightarrow> rate_store \<Rightarrow> RateLimitResult list \<times> rate_store" where
  "checkLimit_calls cfg identifier [] store = ([], store)"
| "checkLimit_calls cfg identifier (now # later) store =
     (let (r, store') = checkLimit cfg now identifier store;
          (rs, store'') = checkLimit_calls cfg identifier later store'
      in (r # rs, store''))"


section \<open>Security validator (src/utils/security.ts, class SecurityValidator)\<close>

text \<open>
  A JavaScript string is a sequence of UTF-16 code units; a \<open>char\<close> here is a code unit
  below 256, and \<open>of_char\<close> is its number.
\<close>

definition code :: "char \<Rightarrow> nat" where
  "code c = of_char c"

definition startsWith :: "string \<Rightarrow> string \<Rightarrow> bool" where
  "startsWith s p = (take (length p) s = p)"

fun String_includes :: "string \<Rightarrow> string \<Rightarrow> bool" where
  "String_includes [] sub = (sub = [])"
| "String_includes (c # cs) sub = (startsWith (c # cs) sub \<or> String_includes cs sub)"

definition isUpper :: "char \<Rightarrow> bool" where
  "isUpper c =
     ((65 \<le> code c \<and> code c \<le> 90) \<or> (192 \<le> code c \<and> code c \<le> 222 \<and> code c \<noteq> 215))"

text \<open>
  Lower case is 32 above upper case: bit 5 of the code unit, which is clear in an
  upper-case letter.
\<close>

definition toLowerChar :: "char \<Rightarrow> char" where
  "toLowerChar c =
     (if isUpper c
      then (case c of Char b0 b1 b2 b3 b4 b5 b6 b7 \<Rightarrow> Char b0 b1 b2 b3 b4 True b6 b7)
      else c)"

definition toLowerCase :: "string \<Rightarrow> string" where
  "toLowerCase s = map toLowerChar s"

subsection \<open>The regular expressions the validator uses\<close>

text \<open>
  The patterns of the source are alternatives of sequences of one-character items, each
  taken once, zero or more times (\<^verbatim>\<open>*\<close>) or one or more times (\<^verbatim>\<open>+\<close>), possibly anchored at
  the start (\<^verbatim>\<open>^\<close>). \<^verbatim>\<open>RegExp.test\<close> asks whether some match exists.
\<close>

datatype quant = Once | Star | Plus

type_synonym item = "(char \<Rightarrow> bool) \<times> quant"

record regex =
  anchored :: bool
  alternatives :: "item list list"

fun match_here :: "item list \<Rightarrow> string \<Rightarrow> bool" where
  "match_here [] s = True"
| "match_here ((p, Once) # r) s =
     (case s of [] \<Rightarrow> False | c # cs \<Rightarrow> p c \<and> match_here r cs)"
| "match_here ((p, Star) # r) s =
     (match_here r s \<or> (case s of [] \<Rightarrow> False | c # cs \<Rightarrow> p c \<and> match_here ((p, Star) # r) cs))"
| "match_here ((p, Plus) # r) s =
     (case s of [] \<Rightarrow> False | c # cs \<Rightarrow> p c \<and> match_here ((p, Star) # r) cs)"

fun search :: "item list \<Rightarrow> string \<Rightarrow> bool" where
  "search r [] = match_here r []"
| "search r (c # cs) = (match_here r (c # cs) \<or> search r cs)"

definition test :: "regex \<Rightarrow> string \<Rightarrow> bool" where
  "test re s =
     list_ex (\<lambda>r. if anchored re then match_here r s else search r s) (alternatives re)"

text \<open>Character items: a literal, a literal under the \<^verbatim>\<open>i\<close> flag, classes.\<close>

definition lit :: "char \<Rightarrow> item" where
  "lit c = (\<lambda>x. x = c, Once)"

definition lit_i :: "char \<Rightarrow> item" where
  "lit_i c = (\<lambda>x. toLowerChar x = toLowerChar c, Once)"

definition isAsciiLetter :: "char \<Rightarrow> bool" where
  "isAsciiLetter c = ((65 \<le> code c \<and> code c \<le> 90) \<or> (97 \<le> code c \<and> code c \<le> 122))"

definition isControl :: "char \<Rightarrow> bool" where
  "isControl c = (code c \<le> 31 \<or> (127 \<le> code c \<and> code c \<le> 159))"



definition literal :: "string \<Rightarrow> item list" where
  "literal s = map lit s"

definition literal_i :: "string \<Rightarrow> item list" where
  "literal_i s = map lit_i s"

definition unanchored :: "item list \<Rightarrow> regex" where
  "unanchored r = \<lparr>anchored = False, alternatives = [r]\<rparr>"

definition backslash :: char where
  "backslash = CHR 0x5C"

definition DANGEROUS_PATTERNS :: "regex list" where
  "DANGEROUS_PATTERNS =
     [unanchored (literal ''..''),
      unanchored (literal_i ''/etc/passwd''),
      unanchored (literal_i ''/etc/shadow''),
      unanchored (literal_i ''/proc/''),
      unanchored (literal_i ''/sys/''),
      unanchored (literal_i ''/dev/''),
      unanchored (literal_i ''/boot/''),
      unanchored (literal_i ''/root/''),
      unanchored [lit backslash, lit backslash, (isAsciiLetter, Plus), lit (CHR ''$'')],
      \<lparr>anchored = True, alternatives = [[(isAsciiLetter, Once), lit (CHR '':''), lit backslash]]\<rparr>,
      unanchored [lit (CHR 0x00)],
      unanchored [(isControl, Once)]]"



subsection \<open>Paths\<close>

text \<open>
  The functions of Node's \<^verbatim>\<open>path\<close> module that \<^verbatim>\<open>validatePath\<close> calls, and the directory
  lists of \<^verbatim>\<open>securityConfig\<close>, are parameters of the validator.
\<close>

record path_module =
  normalize :: "string \<Rightarrow> string"
  isAbsolute :: "string \<Rightarrow> bool"
  extname :: "string \<Rightarrow> string"
  resolve :: "string \<Rightarrow> string"

record security_config =
  allowedDirectories :: "string list"
  blockedDirectories :: "string list"

record path_options =
  allowAbsolute :: bool
  maxLength :: int
  allowedExtensions :: "string list option"
  blockedExtensions :: "string list"

definition default_options :: path_options where
  "default_options =
     \<lparr>allowAbsolute = False, maxLength = 1000, allowedExtensions = None,
      blockedExtensions = [''.exe'', ''.bat'', ''.cmd'', ''.com'', ''.scr'', ''.pif'']\<rparr>"

text \<open>One constructor for each \<^verbatim>\<open>throw new Error(...)\<close> of the two validators.\<close>

datatype rejection =
    InvalidPath
  | PathTooLong nat int
  | PathContainsDangerousPatterns
  | PathTraversalAfterNormalization
  | AbsolutePathsNotAllowed
  | FileExtensionNotAllowed string
  | FileExtensionNotInAllowedList string
  | PathNotWithinAllowedDirectories
  | PathWithinBlockedDirectory
  | InvalidCommand
  | DangerousCommandNotAllowed string
  | CommandContainsDangerousPatterns
  | CommandArgumentTooLong

definition validatePath ::
  "path_module \<Rightarrow> security_config \<Rightarrow> path_options \<Rightarrow> string \<Rightarrow> rejection + string" where
  "validatePath path sc opts inputPath =
     (if inputPath = [] then Inl InvalidPath
      else if int (length inputPath) > maxLength opts
      then Inl (PathTooLong (length inputPath) (maxLength opts))
      else if list_ex (\<lambda>pattern. test pattern inputPath) DANGEROUS_PATTERNS
      then Inl PathContainsDangerousPatterns
      else
        let normalizedPath = normalize path inputPath
        in if String_includes normalizedPath ''..'' then Inl PathTraversalAfterNormalization
           else if isAbsolute path normalizedPath \<and> \<not> allowAbsolute opts
           then Inl AbsolutePathsNotAllowed
           else
             let ext = toLowerCase (extname path normalizedPath)
             in if ext \<noteq> [] \<and> ext \<in> set (blockedExtensions opts)
                then Inl (FileExtensionNotAllowed ext)
                else if ext \<noteq> [] \<and>
                        (case allowedExtensions opts of
                           None \<Rightarrow> False
                         | Some exts \<Rightarrow> ext \<notin> set exts)
                then Inl (FileExtensionNotInAllowedList ext)
                else
                  let absolutePath = resolve path normalizedPath
                  in if \<not> list_ex (\<lambda>allowedDir. startsWith absolutePath (resolve path allowedDir))
                            (allowedDirectories sc)
                     then Inl PathNotWithinAllowedDirectories
                     else if list_ex (\<lambda>blockedDir. startsWith absolutePath (resolve path blockedDir))
                              (blockedDirectories sc)
                     then Inl PathWithinBlockedDirectory
                     else Inr absolutePath)"

fun join :: "string \<Rightarrow> string list \<Rightarrow> string" where
  "join sep [] = []"
| "join sep [x] = x"
| "join sep (x # y # ys) = x @ sep @ join sep (y # ys)"




subsection \<open>Node's path module on POSIX, for running the validator on concrete inputs\<close>

fun split_slash :: "string \<Rightarrow> string list" where
  "split_slash [] = [[]]"
| "split_slash (c # cs) =
     (if c = CHR ''/'' then [] # split_slash cs
      else (case split_slash cs of [] \<Rightarrow> [[c]] | seg # rest \<Rightarrow> (c # seg) # rest))"

fun normalize_segments :: "bool \<Rightarrow> string list \<Rightarrow> string list \<Rightarrow> string list" where
  "normalize_segments allowAboveRoot acc [] = rev acc"
| "normalize_segments allowAboveRoot acc (seg # rest) =
     (if seg = [] \<or> seg = ''.'' then normalize_segments allowAboveRoot acc rest
      else if seg = ''..'' then
        (case acc of
           [] \<Rightarrow> normalize_segments allowAboveRoot (if allowAboveRoot then [''..''] else []) rest
         | lastSeg # earlier \<Rightarrow>
             if lastSeg \<noteq> ''..'' then normalize_segments allowAboveRoot earlier rest
             else normalize_segments allowAboveRoot
                    (if allowAboveRoot then ''..'' # acc else acc) rest)
      else normalize_segments allowAboveRoot (seg # acc) rest)"

definition join_slash :: "string list \<Rightarrow> string" where
  "join_slash segs = join ''/'' segs"

definition posix_isAbsolute :: "string \<Rightarrow> bool" where
  "posix_isAbsolute p = (case p of [] \<Rightarrow> False | c # _ \<Rightarrow> c = CHR ''/'')"

definition posix_normalize :: "string \<Rightarrow> string" where
  "posix_normalize p =
     (if p = [] then ''.''
      else
        let isAbs = posix_isAbsolute p;
            trailing = (last p = CHR ''/'');
            body = join_slash (normalize_segments (\<not> isAbs) [] (split_slash p))
        in if body = [] then (if isAbs then ''/'' else if trailing then ''./'' else ''.'')
           else (if isAbs then ''/'' else []) @ body @ (if trailing then ''/'' else []))"

definition posix_extname :: "string \<Rightarrow> string" where
  "posix_extname p =
     (let base = (case filter (\<lambda>seg. seg \<noteq> []) (split_slash p) of [] \<Rightarrow> [] | segs \<Rightarrow> last segs);
          stem = rev (drop 1 (dropWhile (\<lambda>c. c \<noteq> CHR ''.'') (rev base)))
      in if CHR ''.'' \<notin> set base \<or> stem = [] \<or> base = ''..'' then []
         else drop (length stem) base)"

definition posix_resolve :: "string \<Rightarrow> string \<Rightarrow> string" where
  "posix_resolve cwd p =
     (let full = (if posix_isAbsolute p then p else cwd @ ''/'' @ p)
      in ''/'' @ join_slash (normalize_segments False [] (split_slash full)))"

definition posix :: "string \<Rightarrow> path_module" where
  "posix cwd =
     \<lparr>normalize = posix_normalize, isAbsolute = posix_isAbsolute,
      extname = posix_extname, resolve = posix_resolve cwd\<rparr>"

definition default_securityConfig :: security_config where
  "default_securityConfig =
     \<lparr>allowedDirectories = [''.'', ''./src'', ''./docs'', ''./tests'', ''./examples'', ''./data''],
      blockedDirectories =
        [''/etc'', ''/usr'', ''/bin'', ''/sbin'', ''/boot'', ''/sys'', ''/proc'', ''/dev'', ''/root'']\<rparr>"


section \<open>Concurrency limiter (src/utils/performance.ts, PerformanceMonitor.withConcurrencyLimit)\<close>

text \<open>
  \<^verbatim>\<open>withConcurrencyLimit\<close> is an async function on a single-threaded runtime: between two
  \<^verbatim>\<open>await\<close>s its code runs without interruption. A call is therefore a sequence of atomic
  steps, and the steps of different calls interleave:
  \<^item> the call itself, up to the first \<^verbatim>\<open>await\<close>: look the limiter up, then either push the
    call's \<^verbatim>\<open>resolve\<close> onto \<^verbatim>\<open>limiter.queue\<close> and wait, or go on to \<^verbatim>\<open>limiter.current++\<close>
    and start the operation;
  \<^item> the continuation of a waiter whose \<^verbatim>\<open>resolve\<close> has been called: \<^verbatim>\<open>limiter.current++\<close>
    and start the operation (the condition is not looked at again);
  \<^item> the \<^verbatim>\<open>finally\<close> block, once the operation has settled either way:
    \<^verbatim>\<open>limiter.current--\<close>, then \<^verbatim>\<open>queue.shift()\<close> and a call of the \<^verbatim>\<open>resolve\<close> taken out.
  Calling \<^verbatim>\<open>resolve\<close> does not run the waiter: it puts the waiter's continuation on the
  runtime's job queue, which runs its jobs first in, first out. Calls are numbered in the
  order they are made; a queue entry is the number of the call that waits.
\<close>

record ConcurrencyLimiter =
  maxConcurrent :: int
  current :: int
  queue :: "nat list"

record concurrency_config =
  maxConcurrentFileOps :: int
  maxConcurrentSearches :: int
  maxConcurrentCommands :: int

datatype outcome = Fulfilled | Rejected

text \<open>
  Besides the limiters, the state holds the pending continuations of released waiters
  (\<open>jobs\<close>) and the calls whose operation is in flight (\<open>running\<close>), and three logs for
  stating properties: the order of the pushes onto a queue (\<open>enqueued\<close>), the order in which
  operations were started (\<open>started\<close>) and how each call's operation settled (\<open>settled\<close>).
\<close>

record monitor =
  concurrencyLimiters :: "string \<rightharpoonup> ConcurrencyLimiter"
  nextCall :: nat
  jobs :: "(string \<times> nat) list"
  running :: "(string \<times> nat) list"
  enqueued :: "(string \<times> nat) list"
  started :: "(string \<times> nat) list"
  settled :: "(nat \<times> outcome) list"

definition new_limiter :: "int \<Rightarrow> ConcurrencyLimiter" where
  "new_limiter n = \<lparr>maxConcurrent = n, current = 0, queue = []\<rparr>"

definition new_monitor :: "concurrency_config \<Rightarrow> monitor" where
  "new_monitor cfg =
     \<lparr>concurrencyLimiters =
        [''fileOps'' \<mapsto> new_limiter (maxConcurrentFileOps cfg),
         ''searches'' \<mapsto> new_limiter (maxConcurrentSearches cfg),
         ''commands'' \<mapsto> new_limiter (maxConcurrentCommands cfg)],
      nextCall = 0, jobs = [], running = [], enqueued = [], started = [], settled = []\<rparr>"

datatype concurrency_error = UnknownConcurrencyCategory string

text \<open>\<^verbatim>\<open>limiter.current++\<close> followed by the start of the operation.\<close>

definition acquire :: "string \<Rightarrow> nat \<Rightarrow> monitor \<Rightarrow> monitor" where
  "acquire category i s =
     (case concurrencyLimiters s category of
        None \<Rightarrow> s
      | Some limiter \<Rightarrow>
          s\<lparr>concurrencyLimiters :=
              (concurrencyLimiters s)(category \<mapsto> limiter\<lparr>current := current limiter + 1\<rparr>),
            running := running s @ [(category, i)],
            started := started s @ [(category, i)]\<rparr>)"

text \<open>The call, up to its first \<^verbatim>\<open>await\<close>.\<close>

definition withConcurrencyLimit_call :: "string \<Rightarrow> monitor \<Rightarrow> concurrency_error + monitor" where
  "withConcurrencyLimit_call category s =
     (case concurrencyLimiters s category of
        None \<Rightarrow> Inl (UnknownConcurrencyCategory category)
      | Some limiter \<Rightarrow>
          let i = nextCall s; s1 = s\<lparr>nextCall := i + 1\<rparr>
          in if current limiter \<ge> maxConcurrent limiter
             then Inr (s1\<lparr>concurrencyLimiters :=
                           (concurrencyLimiters s1)(category \<mapsto> limiter\<lparr>queue := queue limiter @ [i]\<rparr>),
                         enqueued := enqueued s1 @ [(category, i)]\<rparr>)
             else Inr (acquire category i s1))"

text \<open>The runtime runs the oldest pending continuation of a released waiter.\<close>

definition resume_waiter :: "monitor \<Rightarrow> monitor option" where
  "resume_waiter s =
     (case jobs s of
        [] \<Rightarrow> None
      | (category, i) # rest \<Rightarrow> Some (acquire category i (s\<lparr>jobs := rest\<rparr>)))"

text \<open>The \<^verbatim>\<open>finally\<close> block.\<close>

definition release :: "string \<Rightarrow> monitor \<Rightarrow> monitor" where
  "release category s =
     (case concurrencyLimiters s category of
        None \<Rightarrow> s
      | Some limiter \<Rightarrow>
          let l1 = limiter\<lparr>current := current limiter - 1\<rparr>
          in (case queue l1 of
                [] \<Rightarrow> s\<lparr>concurrencyLimiters := (concurrencyLimiters s)(category \<mapsto> l1)\<rparr>
              | next # rest \<Rightarrow>
                  s\<lparr>concurrencyLimiters := (concurrencyLimiters s)(category \<mapsto> l1\<lparr>queue := rest\<rparr>),
                    jobs := jobs s @ [(category, next)]\<rparr>))"

text \<open>
  The operation of call \<open>i\<close> settles, fulfilled or rejected, and the \<^verbatim>\<open>finally\<close> block runs;
  possible only while that operation is in flight.
\<close>

definition operation_settles :: "nat \<Rightarrow> outcome \<Rightarrow> monitor \<Rightarrow> monitor option" where
  "operation_settles i result s =
     (case find (\<lambda>r. snd r = i) (running s) of
        None \<Rightarrow> None
      | Some (category, _) \<Rightarrow>
          Some (release category
                  (s\<lparr>running := remove1 (category, i) (running s),
                     settled := settled s @ [(i, result)]\<rparr>)))"

datatype event = Call string | Resume | Settle nat outcome

definition step :: "monitor \<Rightarrow> event \<Rightarrow> monitor option" where
  "step s e =
     (case e of
        Call category \<Rightarrow>
          (case withConcurrencyLimit_call category s of Inl err \<Rightarrow> Some s | Inr s' \<Rightarrow> Some s')
      | Resume \<Rightarrow> resume_waiter s
      | Settle i result \<Rightarrow> operation_settles i result s)"

fun run_events :: "monitor \<Rightarrow> event list \<Rightarrow> monitor option" where
  "run_events s [] = Some s"
| "run_events s (e # es) = (case step s e of None \<Rightarrow> None | Some s' \<Rightarrow> run_events s' es)"

definition in_flight :: "string \<Rightarrow> monitor \<Rightarrow> nat" where
  "in_flight category s = length (filter (\<lambda>r. fst r = category) (running s))"

definition of_category :: "string \<Rightarrow> (string \<times> nat) list \<Rightarrow> nat list" where
  "of_category category xs = map snd (filter (\<lambda>r. fst r = category) xs)"

subsection \<open>Observations on the monitor\<close>

text \<open>
  A call has waited when its number was pushed onto a queue. The admitted waiters of a
  category are the calls that waited and whose operation has started, in the order of
  the starts.
\<close>

definition waited :: "monitor \<Rightarrow> string \<times> nat \<Rightarrow> bool" where
  "waited s x = (snd x \<in> snd ` set (enqueued s))"

definition admitted_waiters :: "string \<Rightarrow> monitor \<Rightarrow> nat list" where
  "admitted_waiters category s = of_category category (filter (waited s) (started s))"

definition queue_of :: "string \<Rightarrow> monitor \<Rightarrow> nat list" where
  "queue_of category s = (case concurrencyLimiters s category of None \<Rightarrow> [] | Some l \<Rightarrow> queue l)"

definition slot_limit :: "string \<Rightarrow> monitor \<Rightarrow> int" where
  "slot_limit category s =
     (case concurrencyLimiters s category of None \<Rightarrow> 0 | Some l \<Rightarrow> maxConcurrent l)"

definition slots_taken :: "string \<Rightarrow> monitor \<Rightarrow> int" where
  "slots_taken category s =
     (case concurrencyLimiters s category of None \<Rightarrow> 0 | Some l \<Rightarrow> current l)"

text \<open>What a run of events leaves for a category: limit, \<open>current\<close>, and the calls in flight.\<close>

definition outcome_for :: "string \<Rightarrow> monitor option \<Rightarrow> (int \<times> int \<times> nat list) option" where
  "outcome_for category r =
     (case r of
        None \<Rightarrow> None
      | Some s \<Rightarrow> Some (slot_limit category s, slots_taken category s,
                         of_category category (running s)))"

subsection \<open>Invariants of the monitor\<close>

definition known :: "monitor \<Rightarrow> string \<times> nat \<Rightarrow> bool" where
  "known s x = (fst x \<in> dom (concurrencyLimiters s) \<and> snd x < nextCall s)"

definition fifo_inv :: "monitor \<Rightarrow> bool" where
  "fifo_inv s =
     (list_all (known s) (enqueued s) \<and> list_all (known s) (started s)
      \<and> list_all (\<lambda>x. fst x \<in> dom (concurrencyLimiters s)) (jobs s)
      \<and> (\<forall>category. of_category category (enqueued s) =
            admitted_waiters category s @ of_category category (jobs s) @ queue_of category s))"

definition slots_inv :: "monitor \<Rightarrow> bool" where
  "slots_inv s =
     (\<forall>category l. concurrencyLimiters s category = Some l \<longrightarrow>
        current l = int (in_flight category s))"

definition unique_inv :: "monitor \<Rightarrow> bool" where
  "unique_inv s =
     (distinct (map snd (enqueued s)) \<and> distinct (map snd (started s))
      \<and> distinct (map snd (running s)) \<and> set (running s) \<subseteq> set (started s))"

definition monitor_inv :: "monitor \<Rightarrow> bool" where
  "monitor_inv s = (fifo_inv s \<and> unique_inv s \<and> slots_inv s)"


section \<open>Concrete configurations and inputs for the examples\<close>

definition demo_cfg :: cache_config where
  "demo_cfg = \<lparr>maxSize = Num 2, ttl = Num 1000, enabled = True\<rparr>"

text \<open>A cache made with \<^verbatim>\<open>maxSize: 1.5\<close>, and one whose \<^verbatim>\<open>maxSize\<close> is \<^verbatim>\<open>NaN\<close>.\<close>

definition fraction_cfg :: cache_config where
  "fraction_cfg = \<lparr>maxSize = Num (3 / 2), ttl = Num 1000, enabled = True\<rparr>"

definition nan_cfg :: cache_config where
  "nan_cfg = \<lparr>maxSize = NaN, ttl = Num 1000, enabled = True\<rparr>"

text \<open>The cache after \<^verbatim>\<open>set('', v)\<close> and \<^verbatim>\<open>set('b', v)\<close>: full, the empty string its oldest key.\<close>

definition empty_key_first :: cache where
  "empty_key_first =
     \<lparr>entries = [([], new_entry 0 VPrim), (''b'', new_entry 1 VPrim)],
      hits = 0, misses = 0, evictions = 0\<rparr>"

definition demo_two :: cache where
  "demo_two =
     \<lparr>entries = [(''a'', new_entry 0 VPrim), (''b'', new_entry 1 VPrim)],
      hits = 0, misses = 0, evictions = 0\<rparr>"

definition demo_rate :: rate_config where
  "demo_rate = \<lparr>windowMs = 1000, maxRequests = 3, rateLimiting_enabled = True\<rparr>"

definition full_window :: RateLimitEntry where
  "full_window = \<lparr>count = 3, resetTime = 1000, firstRequest = 0\<rparr>"

definition full_store :: rate_store where
  "full_store = [''u'' \<mapsto> full_window]"

definition demo_path :: path_module where
  "demo_path = posix ''/srv/app''"

text \<open>
  A path module whose \<^verbatim>\<open>normalize\<close> puts \<^verbatim>\<open>../\<close> in front of its argument, to reach the check
  that follows normalization.
\<close>

definition climbing_path :: path_module where
  "climbing_path = demo_path\<lparr>normalize := (\<lambda>p. ''../'' @ p)\<rparr>"


definition demo_limits :: concurrency_config where
  "demo_limits = \<lparr>maxConcurrentFileOps = 10, maxConcurrentSearches = 5, maxConcurrentCommands = 1\<rparr>"


section \<open>Properties of the LRU cache\<close>


lemma length_Map_delete_le: "length (Map_delete k m) \<le> length m"
  by (simp add: Map_delete_def)

lemma Map_has_iff: "Map_has k m \<longleftrightarrow> k \<in> fst ` set m"
  by (simp add: Map_has_def map_of_eq_None_iff)

lemma length_Map_delete_less: "Map_has k m \<Longrightarrow> length (Map_delete k m) < length m"
  unfolding Map_delete_def Map_has_iff
  by (auto intro: length_filter_less)

lemma length_Map_set_le: "length (Map_set k v m) \<le> Suc (length m)"
  by (induction m) auto

lemma keys_Map_delete: "set (Map_keys (Map_delete k m)) = set (Map_keys m) - {k}"
  by (auto simp: Map_delete_def Map_keys_def)

lemma Map_set_absent: "\<not> Map_has k m \<Longrightarrow> Map_set k v m = m @ [(k, v)]"
  unfolding Map_has_iff by (induction m) auto

lemma not_has_Map_delete: "\<not> Map_has k (Map_delete k m)"
  by (auto simp: Map_has_iff Map_delete_def)

lemma Map_delete_absent: "\<not> Map_has k m \<Longrightarrow> Map_delete k m = m"
  by (auto simp: Map_has_iff Map_delete_def filter_id_conv)

lemma evict_while_full_not_full:
  "\<not> size_ge (cache_size c) (maxSize cfg) \<Longrightarrow> evict_while_full cfg c = Some c"
  by (subst evict_while_full.simps) simp

lemma evict_while_full_step:
  "size_ge (cache_size c) (maxSize cfg) \<Longrightarrow>
     evict_while_full cfg c = evict_while_full cfg (evictLRU c)"
  by (subst evict_while_full.simps) simp

lemma evict_while_full_size:
  assumes "evict_while_full cfg c = Some c'"
  shows "\<not> size_ge (cache_size c') (maxSize cfg)"
proof (rule evict_while_full.raw_induct
    [where P = "\<lambda>cfg c c'. \<not> size_ge (cache_size c') (maxSize cfg)", OF _ assms])
  fix evict and cfg :: cache_config and c c' :: cache
  assume ih: "\<And>(cfg :: cache_config) (c :: cache) y.
        evict cfg c = Some y \<Longrightarrow> \<not> size_ge (cache_size y) (maxSize cfg)"
    and step: "(if size_ge (cache_size c) (maxSize cfg) then evict cfg (evictLRU c) else Some c)
                 = Some c'"
  show "\<not> size_ge (cache_size c') (maxSize cfg)"
  proof (cases "size_ge (cache_size c) (maxSize cfg)")
    case True
    with step have "evict cfg (evictLRU c) = Some c'" by simp
    then show ?thesis by (rule ih)
  next
    case False
    with step show ?thesis by auto
  qed
qed

text \<open>With the oldest key one that \<^verbatim>\<open>evictLRU\<close> leaves in place, the loop of a full cache never ends.\<close>

lemma evict_while_full_stuck:
  assumes "evictLRU c = c" and "size_ge (cache_size c) (maxSize cfg)"
  shows "evict_while_full cfg c = None"
proof (rule ccontr)
  assume "evict_while_full cfg c \<noteq> None"
  then obtain y where y: "evict_while_full cfg c = Some y" by blast
  have "\<not> (evictLRU c = c \<and> size_ge (cache_size c) (maxSize cfg))"
  proof (rule evict_while_full.raw_induct
      [where P = "\<lambda>cfg c y. \<not> (evictLRU c = c \<and> size_ge (cache_size c) (maxSize cfg))",
        OF _ y])
    fix evict and cfg :: cache_config and c c' :: cache
    assume ih: "\<And>(cfg :: cache_config) (c :: cache) y. evict cfg c = Some y \<Longrightarrow>
          \<not> (evictLRU c = c \<and> size_ge (cache_size c) (maxSize cfg))"
      and step: "(if size_ge (cache_size c) (maxSize cfg) then evict cfg (evictLRU c) else Some c)
                   = Some c'"
    show "\<not> (evictLRU c = c \<and> size_ge (cache_size c) (maxSize cfg))"
    proof
      assume a: "evictLRU c = c \<and> size_ge (cache_size c) (maxSize cfg)"
      with step have "evict cfg c = Some c'" by simp
      from ih[OF this] a show False by simp
    qed
  qed
  with assms show False by simp
qed

lemma bounded_by_mono: "n' \<le> n \<Longrightarrow> bounded_by x n \<Longrightarrow> bounded_by x n'"
  by (cases x) (auto simp: bounded_by_def)

lemma bounded_by_Suc: "\<not> size_ge n x \<Longrightarrow> n' \<le> Suc n \<Longrightarrow> bounded_by x n'"
  by (cases x) (auto simp: bounded_by_def size_ge_def)

lemma LRUCache_set_size:
  assumes "LRUCache_set cfg now k v c = Some c'" and "enabled cfg"
  shows "bounded_by (maxSize cfg) (cache_size c')"
proof -
  from assms obtain c2 where
    c2: "evict_while_full cfg (if Map_has k (entries c) then c\<lparr>entries := Map_delete k (entries c)\<rparr> else c) = Some c2"
    and c': "c' = c2\<lparr>entries := Map_set k (new_entry now v) (entries c2)\<rparr>"
    by (auto simp: LRUCache_set_def Let_def split: option.splits)
  from evict_while_full_size[OF c2] have "\<not> size_ge (cache_size c2) (maxSize cfg)" .
  moreover have "cache_size c' \<le> Suc (cache_size c2)"
    by (simp add: c' cache_size_def length_Map_set_le)
  ultimately show ?thesis by (rule bounded_by_Suc)
qed

lemma apply_op_size:
  assumes "apply_op cfg now opn c = Some c'" and "bounded_by (maxSize cfg) (cache_size c)"
  shows "bounded_by (maxSize cfg) (cache_size c')"
proof (cases opn)
  case (Set k v)
  show ?thesis
  proof (cases "enabled cfg")
    case True
    with assms Set show ?thesis by (simp add: apply_op_def LRUCache_set_size)
  next
    case False
    with assms Set show ?thesis by (simp add: apply_op_def LRUCache_set_def)
  qed
next
  case (Get k)
  have "cache_size (snd (LRUCache_get cfg now k c)) \<le> cache_size c"
  proof (cases "Map_has k (entries c)")
    case True
    from length_Map_delete_less[OF True]
    have "length (Map_set k e (Map_delete k (entries c))) \<le> length (entries c)" for e
      by (simp add: Map_set_absent not_has_Map_delete)
    then show ?thesis
      by (auto simp: LRUCache_get_def cache_size_def Let_def length_Map_delete_le
          split: option.splits)
  next
    case False
    then show ?thesis
      by (auto simp: LRUCache_get_def Map_get_def Map_has_def cache_size_def split: option.splits)
  qed
  with assms Get show ?thesis by (auto simp: apply_op_def intro: bounded_by_mono)
next
  case (Has k)
  have "cache_size (snd (LRUCache_has cfg now k c)) \<le> cache_size c"
    by (auto simp: LRUCache_has_def cache_size_def length_Map_delete_le split: option.splits)
  with assms Has show ?thesis by (auto simp: apply_op_def intro: bounded_by_mono)
next
  case (Delete k)
  have "cache_size (snd (LRUCache_delete cfg k c)) \<le> cache_size c"
    by (auto simp: LRUCache_delete_def cache_size_def length_Map_delete_le)
  with assms Delete show ?thesis by (auto simp: apply_op_def intro: bounded_by_mono)
next
  case Clear
  with assms show ?thesis
    by (auto simp: apply_op_def LRUCache_clear_def cache_size_def bounded_by_def)
next
  case Cleanup
  have "cache_size (cleanup cfg now c) \<le> cache_size c"
    by (simp add: cleanup_def cache_size_def)
  with assms Cleanup show ?thesis by (auto simp: apply_op_def intro: bounded_by_mono)
qed

lemma run_ops_size:
  "run_ops cfg ops c = Some c' \<Longrightarrow> bounded_by (maxSize cfg) (cache_size c) \<Longrightarrow>
     bounded_by (maxSize cfg) (cache_size c')"
proof (induction ops arbitrary: c)
  case Nil
  then show ?case by simp
next
  case (Cons a ops)
  obtain now opn where a: "a = (now, opn)" by (cases a)
  from Cons.prems(1) obtain c1 where c1: "apply_op cfg now opn c = Some c1"
    and r: "run_ops cfg ops c1 = Some c'"
    by (auto simp: a split: option.splits)
  from apply_op_size[OF c1 Cons.prems(2)] show ?case by (rule Cons.IH[OF r])
qed

lemma Map_delete_head:
  "distinct (Map_keys (p # m)) \<Longrightarrow> Map_delete (fst p) (p # m) = m"
proof -
  assume "distinct (Map_keys (p # m))"
  then have "fst p \<notin> fst ` set m" by (simp add: Map_keys_def)
  then have "\<forall>q\<in>set m. fst q \<noteq> fst p" by (metis imageI)
  then show ?thesis by (simp add: Map_delete_def filter_id_conv)
qed

lemma entries_evictLRU:
  assumes "distinct (Map_keys (entries c))"
  shows "entries (evictLRU c) = entries c \<or> entries (evictLRU c) = tl (entries c)"
proof (cases "entries c")
  case Nil
  then show ?thesis by (simp add: evictLRU_def Map_keys_def)
next
  case (Cons p m)
  with assms have "Map_delete (fst p) (entries c) = m"
    using Map_delete_head[of p m] by simp
  with Cons show ?thesis by (simp add: evictLRU_def Map_keys_def)
qed

lemma distinct_keys_drop: "distinct (Map_keys m) \<Longrightarrow> distinct (Map_keys (drop n m))"
  by (simp add: Map_keys_def drop_map[symmetric])

lemma evict_while_full_drop:
  assumes "evict_while_full cfg c = Some c'"
  shows "distinct (Map_keys (entries c)) \<longrightarrow> (\<exists>n. entries c' = drop n (entries c))"
proof (rule evict_while_full.raw_induct
    [where P = "\<lambda>cfg c c'. distinct (Map_keys (entries c)) \<longrightarrow> (\<exists>n. entries c' = drop n (entries c))",
      OF _ assms])
  fix evict and cfg :: cache_config and c c' :: cache
  assume ih: "\<And>(cfg :: cache_config) (c :: cache) y. evict cfg c = Some y \<Longrightarrow>
        distinct (Map_keys (entries c)) \<longrightarrow> (\<exists>n. entries y = drop n (entries c))"
    and step: "(if size_ge (cache_size c) (maxSize cfg) then evict cfg (evictLRU c) else Some c)
                 = Some c'"
  show "distinct (Map_keys (entries c)) \<longrightarrow> (\<exists>n. entries c' = drop n (entries c))"
  proof
    assume d: "distinct (Map_keys (entries c))"
    show "\<exists>n. entries c' = drop n (entries c)"
    proof (cases "size_ge (cache_size c) (maxSize cfg)")
      case False
      with step have "entries c' = drop 0 (entries c)" by simp
      then show ?thesis ..
    next
      case True
      with step have e: "evict cfg (evictLRU c) = Some c'" by simp
      from entries_evictLRU[OF d]
      obtain j where j: "entries (evictLRU c) = drop j (entries c)"
        by (metis drop0 drop_Suc)
      with d have "distinct (Map_keys (entries (evictLRU c)))"
        by (simp add: distinct_keys_drop)
      with ih[OF e] obtain n where "entries c' = drop n (entries (evictLRU c))" by blast
      with j have "entries c' = drop (n + j) (entries c)" by simp
      then show ?thesis ..
    qed
  qed
qed

lemma evict_while_full_total:
  assumes "\<not> size_ge 0 (maxSize cfg)" and "[] \<notin> set (Map_keys (entries c))"
  shows "\<exists>c'. evict_while_full cfg c = Some c'"
  using assms(2)
proof (induction "cache_size c" arbitrary: c rule: less_induct)
  case less
  show ?case
  proof (cases "size_ge (cache_size c) (maxSize cfg)")
    case False
    then show ?thesis by (simp add: evict_while_full_not_full)
  next
    case True
    with assms(1) obtain p m where pm: "entries c = p # m"
      by (cases "entries c") (auto simp: cache_size_def)
    with less.prems have ne: "fst p \<noteq> []" by (auto simp: Map_keys_def)
    have ev: "entries (evictLRU c) = Map_delete (fst p) (entries c)"
      using pm ne by (simp add: evictLRU_def Map_keys_def)
    have "Map_has (fst p) (entries c)" by (simp add: pm Map_has_iff)
    from length_Map_delete_less[OF this] have "cache_size (evictLRU c) < cache_size c"
      by (simp add: ev cache_size_def)
    moreover have "[] \<notin> set (Map_keys (entries (evictLRU c)))"
      using less.prems by (simp add: ev keys_Map_delete)
    ultimately have "\<exists>c'. evict_while_full cfg (evictLRU c) = Some c'"
      by (rule less.hyps)
    with True show ?thesis by (simp add: evict_while_full_step)
  qed
qed

lemma LRUCache_get_hit:
  assumes "LRUCache_get cfg now k c = (Some v, c')"
  shows "\<exists>e. entries c' = Map_delete k (entries c) @ [(k, e)] \<and> entry_value e = v"
  using assms
  by (auto simp: LRUCache_get_def Let_def Map_set_absent not_has_Map_delete
      split: if_splits option.splits)

lemma distinct_Map_delete: "distinct (Map_keys m) \<Longrightarrow> distinct (Map_keys (Map_delete k m))"
  by (simp add: Map_keys_def Map_delete_def distinct_map_filter)

lemma has_drop: "Map_has k (drop n m) \<Longrightarrow> Map_has k m"
  by (auto simp: Map_has_iff dest: in_set_dropD)

lemma LRUCache_set_entries:
  assumes en: "enabled cfg" and d: "distinct (Map_keys (entries c))"
    and s: "LRUCache_set cfg now k v c = Some c'"
  shows "\<exists>n. entries c' = drop n (Map_delete k (entries c)) @ [(k, new_entry now v)]"
proof -
  define c1 where "c1 = (if Map_has k (entries c) then c\<lparr>entries := Map_delete k (entries c)\<rparr> else c)"
  have e1: "entries c1 = Map_delete k (entries c)"
    by (simp add: c1_def Map_delete_absent)
  from s en obtain c2 where c2: "evict_while_full cfg c1 = Some c2"
    and c': "c' = c2\<lparr>entries := Map_set k (new_entry now v) (entries c2)\<rparr>"
    by (auto simp: LRUCache_set_def Let_def c1_def split: option.splits)
  have "distinct (Map_keys (entries c1))" using d by (simp add: e1 distinct_Map_delete)
  with evict_while_full_drop[OF c2] obtain n where n: "entries c2 = drop n (entries c1)" by blast
  have "\<not> Map_has k (entries c2)"
    using has_drop[of k n "entries c1"] by (auto simp: n e1 not_has_Map_delete)
  then have "entries c' = entries c2 @ [(k, new_entry now v)]"
    by (simp add: c' Map_set_absent)
  with n e1 show ?thesis by auto
qed

lemma Map_get_delete_other: "k' \<noteq> k \<Longrightarrow> Map_get k' (Map_delete k m) = Map_get k' m"
  by (induction m) (auto simp: Map_get_def Map_delete_def)

lemma Map_get_append_other: "k' \<noteq> k \<Longrightarrow> Map_get k' (m @ [(k, v)]) = Map_get k' m"
  by (simp add: Map_get_def map_add_def split: option.splits)

lemma set_into_room:
  assumes "enabled cfg" "\<not> Map_has k (entries c)" "\<not> size_ge (cache_size c) (maxSize cfg)"
  shows "LRUCache_set cfg now k v c = Some (c\<lparr>entries := entries c @ [(k, new_entry now v)]\<rparr>)"
  using assms by (simp add: LRUCache_set_def evict_while_full_not_full Map_set_absent)

lemma lru_scenario:
  fixes cfg :: cache_config
  assumes en: "enabled cfg" and m: "maxSize cfg = Num 2" and d: "distinct [a, b, c]"
    and ne: "a \<noteq> []"
    and tb: "\<not> expired cfg t5 (new_entry t2 vb)" and tc: "\<not> expired cfg t6 (new_entry t3 vc)"
  shows "\<exists>s3 s4 s5 s6.
          run_ops cfg [(t1, Set a va), (t2, Set b vb), (t3, Set c vc)] new_cache = Some s3
          \<and> LRUCache_get cfg t4 a s3 = (None, s4)
          \<and> LRUCache_get cfg t5 b s4 = (Some vb, s5)
          \<and> LRUCache_get cfg t6 c s5 = (Some vc, s6)"
proof -
  let ?ea = "new_entry t1 va" and ?eb = "new_entry t2 vb" and ?ec = "new_entry t3 vc"
  let ?s1 = "new_cache\<lparr>entries := [(a, ?ea)]\<rparr>"
  let ?s2 = "new_cache\<lparr>entries := [(a, ?ea), (b, ?eb)]\<rparr>"
  let ?s2' = "new_cache\<lparr>entries := [(b, ?eb)], evictions := 1\<rparr>"
  let ?s3 = "new_cache\<lparr>entries := [(b, ?eb), (c, ?ec)], evictions := 1\<rparr>"
  from d have ab: "a \<noteq> b" "b \<noteq> a" and ac: "a \<noteq> c" "c \<noteq> a" and bc: "b \<noteq> c" "c \<noteq> b"
    by auto
  have 1: "LRUCache_set cfg t1 a va new_cache = Some ?s1"
    using set_into_room[of cfg a new_cache t1 va] en m
    by (simp add: new_cache_def Map_has_def cache_size_def size_ge_def)
  have 2: "LRUCache_set cfg t2 b vb ?s1 = Some ?s2"
    using set_into_room[of cfg b ?s1 t2 vb] en m ab
    by (simp add: new_cache_def Map_has_def cache_size_def size_ge_def)
  have ev: "evictLRU ?s2 = ?s2'"
    using ne ab by (simp add: evictLRU_def Map_keys_def Map_delete_def new_cache_def)
  have "evict_while_full cfg ?s2 = evict_while_full cfg ?s2'"
    using m by (simp add: evict_while_full_step cache_size_def size_ge_def ev)
  also have "\<dots> = Some ?s2'"
    using m by (simp add: evict_while_full_not_full cache_size_def size_ge_def)
  finally have 3: "LRUCache_set cfg t3 c vc ?s2 = Some ?s3"
    using en ac bc by (simp add: LRUCache_set_def Map_has_def new_cache_def)
  have r: "run_ops cfg [(t1, Set a va), (t2, Set b vb), (t3, Set c vc)] new_cache = Some ?s3"
    by (simp add: apply_op_def 1 2 3)
  have g4: "LRUCache_get cfg t4 a ?s3 = (None, ?s3\<lparr>misses := 1\<rparr>)"
    using en ab ac by (simp add: LRUCache_get_def Map_get_def new_cache_def)
  have g5: "LRUCache_get cfg t5 b (?s3\<lparr>misses := 1\<rparr>) =
      (Some vb, ?s3\<lparr>misses := 1, hits := 1,
         entries := [(c, ?ec), (b, ?eb\<lparr>accessCount := 2, lastAccessed := t5\<rparr>)]\<rparr>)"
    using en bc tb
    by (simp add: LRUCache_get_def Map_get_def Map_delete_def new_cache_def expired_def
        new_entry_def Let_def)
  have g6: "fst (LRUCache_get cfg t6 c (?s3\<lparr>misses := 1, hits := 1,
         entries := [(c, ?ec), (b, ?eb\<lparr>accessCount := 2, lastAccessed := t5\<rparr>)]\<rparr>)) = Some vc"
    using en bc tc
    by (simp add: LRUCache_get_def Map_get_def Map_delete_def new_cache_def expired_def
        new_entry_def Let_def)
  from r g4 g5 g6 show ?thesis
    by (metis prod.collapse)
qed


lemmas cache_eval = LRUCache_set_def LRUCache_get_def LRUCache_has_def LRUCache_delete_def
  LRUCache_clear_def cleanup_def apply_op_def new_cache_def new_entry_def estimateSize_def
  Map_has_def Map_get_def Map_delete_def Map_keys_def evictLRU_def cache_size_def expired_def
  evict_while_full_not_full evict_while_full_step Let_def demo_cfg_def demo_two_def
  size_ge_def size_le_def age_gt_def

lemma distinct_Map_set: "distinct (Map_keys m) \<Longrightarrow> distinct (Map_keys (Map_set k v m))"
proof (induction m)
  case Nil
  then show ?case by (simp add: Map_keys_def)
next
  case (Cons p m)
  have "fst ` set (Map_set k v m) \<subseteq> insert k (fst ` set m)"
    by (induction m) auto
  with Cons show ?case by (auto simp: Map_keys_def)
qed

lemma demo_two_reached:
  "run_ops demo_cfg [(0, Set ''a'' VPrim), (1, Set ''b'' VPrim)] new_cache = Some demo_two"
  by (simp add: cache_eval)

text \<open>
  When the empty cache is not full (\<^verbatim>\<open>0 >= maxSize\<close> is false) and no stored key is the empty
  string, the eviction loop ends and \<^verbatim>\<open>set\<close> returns.
\<close>

lemma LRUCache_set_returns:
  assumes "\<not> size_ge 0 (maxSize cfg)" and "[] \<notin> set (Map_keys (entries c))"
  shows "\<exists>c'. LRUCache_set cfg now k v c = Some c'"
proof (cases "enabled cfg")
  case False
  then show ?thesis by (simp add: LRUCache_set_def)
next
  case True
  let ?c1 = "if Map_has k (entries c) then c\<lparr>entries := Map_delete k (entries c)\<rparr> else c"
  have "[] \<notin> set (Map_keys (entries ?c1))"
    using assms(2) by (simp add: keys_Map_delete)
  from evict_while_full_total[OF assms(1) this] obtain c2 where
    "evict_while_full cfg ?c1 = Some c2" ..
  with True show ?thesis by (simp add: LRUCache_set_def)
qed

text \<open>
  So a sequence of operations that never sets the empty string as a key runs to its end,
  on a cache whose \<open>maxSize\<close> leaves the empty cache not full.
\<close>

lemma keys_Map_set: "set (Map_keys (Map_set k v m)) = insert k (set (Map_keys m))"
  by (induction m) (auto simp: Map_keys_def)

lemma keys_evict_while_full:
  assumes "evict_while_full cfg c = Some c'"
  shows "set (Map_keys (entries c')) \<subseteq> set (Map_keys (entries c))"
proof (rule evict_while_full.raw_induct
    [where P = "\<lambda>cfg c c'. set (Map_keys (entries c')) \<subseteq> set (Map_keys (entries c))",
      OF _ assms])
  fix evict and cfg :: cache_config and c c' :: cache
  assume ih: "\<And>(cfg :: cache_config) (c :: cache) y. evict cfg c = Some y \<Longrightarrow>
        set (Map_keys (entries y)) \<subseteq> set (Map_keys (entries c))"
    and step: "(if size_ge (cache_size c) (maxSize cfg) then evict cfg (evictLRU c) else Some c)
                 = Some c'"
  have ev: "set (Map_keys (entries (evictLRU c))) \<subseteq> set (Map_keys (entries c))"
    by (auto simp: evictLRU_def keys_Map_delete split: list.splits)
  show "set (Map_keys (entries c')) \<subseteq> set (Map_keys (entries c))"
  proof (cases "size_ge (cache_size c) (maxSize cfg)")
    case True
    with step have "evict cfg (evictLRU c) = Some c'" by simp
    from ih[OF this] ev show ?thesis by blast
  next
    case False
    with step show ?thesis by auto
  qed
qed

lemma map_of_absent_key: "k \<notin> set (Map_keys m) \<Longrightarrow> map_of m k = None"
  by (simp add: Map_keys_def map_of_eq_None_iff)

lemma apply_op_returns:
  assumes "\<not> size_ge 0 (maxSize cfg)" and "[] \<notin> set (Map_keys (entries c))"
    and "\<not> sets_key [] opn"
  shows "\<exists>c'. apply_op cfg now opn c = Some c' \<and> [] \<notin> set (Map_keys (entries c'))"
proof (cases opn)
  case (Set k v)
  with assms(3) have k: "k \<noteq> []" by auto
  from LRUCache_set_returns[OF assms(1,2), of now k v] obtain c' where
    s: "LRUCache_set cfg now k v c = Some c'" ..
  have "[] \<notin> set (Map_keys (entries c'))"
  proof (cases "enabled cfg")
    case False
    with s assms(2) show ?thesis by (simp add: LRUCache_set_def)
  next
    case True
    let ?c1 = "if Map_has k (entries c) then c\<lparr>entries := Map_delete k (entries c)\<rparr> else c"
    from s True obtain c2 where c2: "evict_while_full cfg ?c1 = Some c2"
      and c': "c' = c2\<lparr>entries := Map_set k (new_entry now v) (entries c2)\<rparr>"
      by (auto simp: LRUCache_set_def Let_def split: option.splits)
    have "[] \<notin> set (Map_keys (entries ?c1))"
      using assms(2) by (simp add: keys_Map_delete)
    with keys_evict_while_full[OF c2] have "[] \<notin> set (Map_keys (entries c2))" by blast
    with k show ?thesis by (simp add: c' keys_Map_set)
  qed
  with s Set show ?thesis by (simp add: apply_op_def)
next
  case (Get k)
  with assms(2) show ?thesis
    by (cases "k = []")
      (auto simp: apply_op_def LRUCache_get_def Let_def keys_Map_delete keys_Map_set
        Map_get_def map_of_absent_key split: option.splits)
next
  case (Has k)
  with assms(2) show ?thesis
    by (auto simp: apply_op_def LRUCache_has_def keys_Map_delete split: option.splits)
next
  case (Delete k)
  with assms(2) show ?thesis
    by (auto simp: apply_op_def LRUCache_delete_def keys_Map_delete)
next
  case Clear
  then show ?thesis by (simp add: apply_op_def LRUCache_clear_def Map_keys_def)
next
  case Cleanup
  with assms(2) show ?thesis
    by (auto simp: apply_op_def cleanup_def Map_keys_def)
qed

lemma run_ops_returns_from:
  assumes "\<not> size_ge 0 (maxSize cfg)"
  shows "[] \<notin> set (Map_keys (entries c)) \<Longrightarrow> list_all (\<lambda>x. \<not> sets_key [] (snd x)) ops \<Longrightarrow>
     \<exists>c'. run_ops cfg ops c = Some c'"
proof (induction ops arbitrary: c)
  case Nil
  then show ?case by simp
next
  case (Cons a ops)
  obtain now opn where a: "a = (now, opn)" by (cases a)
  with Cons.prems(2) have "\<not> sets_key [] opn" by simp
  from apply_op_returns[OF assms Cons.prems(1) this, of now] obtain c1 where
    c1: "apply_op cfg now opn c = Some c1" and k: "[] \<notin> set (Map_keys (entries c1))"
    by blast
  from Cons.prems(2) have "list_all (\<lambda>x. \<not> sets_key [] (snd x)) ops" by simp
  from Cons.IH[OF k this] c1 show ?case by (simp add: a)
qed

lemma run_ops_returns:
  assumes "\<not> size_ge 0 (maxSize cfg)" and "list_all (\<lambda>x. \<not> sets_key [] (snd x)) ops"
  shows "\<exists>c. run_ops cfg ops new_cache = Some c"
  using run_ops_returns_from[OF assms(1) _ assms(2), of new_cache]
  by (simp add: new_cache_def Map_keys_def)

text \<open>The caches reached from the empty one have distinct keys.\<close>

lemma evict_while_full_distinct:
  assumes "evict_while_full cfg c = Some c'" and "distinct (Map_keys (entries c))"
  shows "distinct (Map_keys (entries c'))"
proof -
  from evict_while_full_drop[OF assms(1)] assms(2) obtain n where
    "entries c' = drop n (entries c)" by blast
  with assms(2) show ?thesis by (simp add: distinct_keys_drop)
qed

lemma apply_op_distinct:
  assumes "apply_op cfg now opn c = Some c'" and d: "distinct (Map_keys (entries c))"
  shows "distinct (Map_keys (entries c'))"
proof (cases opn)
  case (Set k v)
  show ?thesis
  proof (cases "enabled cfg")
    case False
    with assms Set show ?thesis by (simp add: apply_op_def LRUCache_set_def)
  next
    case True
    let ?c1 = "if Map_has k (entries c) then c\<lparr>entries := Map_delete k (entries c)\<rparr> else c"
    from assms(1) Set True obtain c2 where c2: "evict_while_full cfg ?c1 = Some c2"
      and c': "c' = c2\<lparr>entries := Map_set k (new_entry now v) (entries c2)\<rparr>"
      by (auto simp: apply_op_def LRUCache_set_def Let_def split: option.splits)
    have "distinct (Map_keys (entries ?c1))" using d by (simp add: distinct_Map_delete)
    from evict_while_full_distinct[OF c2 this] show ?thesis
      by (simp add: c' distinct_Map_set)
  qed
next
  case (Get k)
  with assms show ?thesis
    by (auto simp: apply_op_def LRUCache_get_def Let_def distinct_Map_delete distinct_Map_set
        split: option.splits)
next
  case (Has k)
  with assms show ?thesis
    by (auto simp: apply_op_def LRUCache_has_def distinct_Map_delete split: option.splits)
next
  case (Delete k)
  with assms show ?thesis
    by (auto simp: apply_op_def LRUCache_delete_def distinct_Map_delete)
next
  case Clear
  with assms show ?thesis by (auto simp: apply_op_def LRUCache_clear_def Map_keys_def)
next
  case Cleanup
  with assms show ?thesis
    by (auto simp: apply_op_def cleanup_def Map_keys_def distinct_map_filter)
qed

lemma run_ops_distinct:
  "run_ops cfg ops c = Some c' \<Longrightarrow> distinct (Map_keys (entries c)) \<Longrightarrow>
     distinct (Map_keys (entries c'))"
proof (induction ops arbitrary: c)
  case Nil
  then show ?case by simp
next
  case (Cons a ops)
  obtain now opn where a: "a = (now, opn)" by (cases a)
  from Cons.prems(1) obtain c1 where c1: "apply_op cfg now opn c = Some c1"
    and r: "run_ops cfg ops c1 = Some c'"
    by (auto simp: a split: option.splits)
  from apply_op_distinct[OF c1 Cons.prems(2)] show ?case by (rule Cons.IH[OF r])
qed

lemma reachable_distinct_keys:
  "run_ops cfg ops new_cache = Some c \<Longrightarrow> distinct (Map_keys (entries c))"
  using run_ops_distinct[of cfg ops new_cache c] by (simp add: new_cache_def Map_keys_def)

text \<open>
  Claim C2, as the code has it: when \<open>maxSize\<close> is a whole number, not negative, then
  starting from the empty cache, whenever a sequence of cache operations (\<^verbatim>\<open>set\<close>, \<^verbatim>\<open>get\<close>,
  \<^verbatim>\<open>has\<close>, \<^verbatim>\<open>delete\<close>, \<^verbatim>\<open>clear\<close>, the periodic cleanup; any keys, any times) has completed,
  the number of stored entries is at most \<open>maxSize\<close>. For any finite \<open>maxSize\<close> the number
  of entries is then 0 or below \<open>maxSize + 1\<close>. The statement holds for every sequence,
  hence after each operation of a sequence.
\<close>

theorem cache_size_bounded:
  assumes "run_ops cfg ops new_cache = Some c"
  shows "(maxSize cfg = Num r \<and> isCount r \<longrightarrow> size_le (cache_size c) (maxSize cfg))
       \<and> (maxSize cfg = Num r \<longrightarrow> cache_size c = 0 \<or> real (cache_size c) < r + 1)"
proof -
  have "bounded_by (maxSize cfg) (cache_size new_cache)"
    by (simp add: bounded_by_def new_cache_def cache_size_def)
  from run_ops_size[OF assms this] have b: "bounded_by (maxSize cfg) (cache_size c)" .
  have 2: "cache_size c = 0 \<or> real (cache_size c) < r + 1" if "maxSize cfg = Num r"
    using b that by (simp add: bounded_by_def)
  have 1: "size_le (cache_size c) (maxSize cfg)" if m: "maxSize cfg = Num r" and w: "isCount r"
  proof -
    from w have r: "r = real_of_int \<lfloor>r\<rfloor>" and nn: "0 \<le> r"
      unfolding isCount_def by (simp_all del: of_int_floor_cancel)
    from 2[OF m] have "real (cache_size c) \<le> r"
    proof
      assume "cache_size c = 0"
      with nn show ?thesis by simp
    next
      assume "real (cache_size c) < r + 1"
      then have "real_of_int (int (cache_size c)) < real_of_int (\<lfloor>r\<rfloor> + 1)"
        using r by simp
      then have "int (cache_size c) < \<lfloor>r\<rfloor> + 1" by (simp only: of_int_less_iff)
      then have "int (cache_size c) \<le> \<lfloor>r\<rfloor>" by simp
      then have "real_of_int (int (cache_size c)) \<le> real_of_int \<lfloor>r\<rfloor>"
        by (simp only: of_int_le_iff)
      with r show ?thesis by simp
    qed
    with m show ?thesis by (simp add: size_le_def)
  qed
  from 1 2 show ?thesis by blast
qed

theorem cache_size_bounded_witness:
  "run_ops demo_cfg [(0, Set ''a'' VPrim), (1, Set ''b'' VPrim), (2, Get ''a''), (3, Set ''c'' VPrim)]
     new_cache
    = Some \<lparr>entries =
             [(''a'', \<lparr>entry_value = VPrim, timestamp = 0, accessCount = 2, lastAccessed = 2,
                       entry_size = 64\<rparr>),
              (''c'', \<lparr>entry_value = VPrim, timestamp = 3, accessCount = 1, lastAccessed = 3,
                       entry_size = 64\<rparr>)],
            hits = 1, misses = 0, evictions = 1\<rparr>
   \<and> maxSize demo_cfg = Num 2 \<and> isCount 2
   \<and> size_le
        (cache_size
          \<lparr>entries =
             [(''a'', \<lparr>entry_value = VPrim, timestamp = 0, accessCount = 2, lastAccessed = 2,
                       entry_size = 64\<rparr>),
              (''c'', \<lparr>entry_value = VPrim, timestamp = 3, accessCount = 1, lastAccessed = 3,
                       entry_size = 64\<rparr>)],
            hits = 1, misses = 0, evictions = 1\<rparr>)
        (maxSize demo_cfg)"
proof -
  have r: "run_ops demo_cfg
      [(0, Set ''a'' VPrim), (1, Set ''b'' VPrim), (2, Get ''a''), (3, Set ''c'' VPrim)] new_cache
    = Some \<lparr>entries =
             [(''a'', \<lparr>entry_value = VPrim, timestamp = 0, accessCount = 2, lastAccessed = 2,
                       entry_size = 64\<rparr>),
              (''c'', \<lparr>entry_value = VPrim, timestamp = 3, accessCount = 1, lastAccessed = 3,
                       entry_size = 64\<rparr>)],
            hits = 1, misses = 0, evictions = 1\<rparr>"
    by (simp add: cache_eval)
  have h: "maxSize demo_cfg = Num 2" "isCount 2"
    by (simp_all add: demo_cfg_def isCount_def)
  have pre: "maxSize demo_cfg = Num 2 \<and> isCount 2" by (intro conjI h)
  from cache_size_bounded[OF r, of 2, THEN conjunct1, THEN mp, OF pre] r h
  show ?thesis by (intro conjI)
qed

text \<open>
  The claim as worded fails for a \<open>maxSize\<close> that is not a whole number: with
  \<^verbatim>\<open>maxSize: 1.5\<close> the second \<^verbatim>\<open>set\<close> finds \<^verbatim>\<open>1 >= 1.5\<close> false, evicts nothing and leaves two
  entries; with \<^verbatim>\<open>NaN\<close> no comparison is ever true.
\<close>

theorem size_exceeds_fractional_maxSize:
  "run_ops fraction_cfg [(0, Set ''a'' VPrim), (1, Set ''b'' VPrim)] new_cache = Some demo_two
   \<and> cache_size demo_two = 2
   \<and> maxSize fraction_cfg = Num (3 / 2)
   \<and> \<not> size_le (cache_size demo_two) (maxSize fraction_cfg)
   \<and> run_ops nan_cfg [(0, Set ''a'' VPrim), (1, Set ''b'' VPrim)] new_cache = Some demo_two
   \<and> \<not> size_le (cache_size demo_two) (maxSize nan_cfg)"
  by (simp add: cache_eval fraction_cfg_def nan_cfg_def)

text \<open>
  Claim C7 says that \<^verbatim>\<open>set\<close> evicts in least-recently-used order, so that with
  \<open>maxSize = 2\<close> the calls \<^verbatim>\<open>set(a)\<close>, \<^verbatim>\<open>set(b)\<close>, \<^verbatim>\<open>set(c)\<close> leave \<open>a\<close> evicted. When the oldest
  key is the empty string the code does not get there: after \<^verbatim>\<open>set('', v)\<close> and
  \<^verbatim>\<open>set('b', v)\<close> the cache is full, \<^verbatim>\<open>evictLRU\<close> reads the first key, finds it falsy and
  deletes nothing, and the loop of \<^verbatim>\<open>set('c', v)\<close> never ends: the call has no result.
\<close>

theorem set_hangs_on_empty_oldest_key:
  "run_ops demo_cfg [(0, Set [] VPrim), (1, Set ''b'' VPrim)] new_cache = Some empty_key_first
   \<and> evictLRU empty_key_first = empty_key_first
   \<and> LRUCache_set demo_cfg 2 ''c'' VPrim empty_key_first = None
   \<and> run_ops demo_cfg [(0, Set [] VPrim), (1, Set ''b'' VPrim), (2, Set ''c'' VPrim)] new_cache
       = None"
proof -
  have r: "run_ops demo_cfg [(0, Set [] VPrim), (1, Set ''b'' VPrim)] new_cache
      = Some empty_key_first"
    by (simp add: cache_eval empty_key_first_def)
  have e: "evictLRU empty_key_first = empty_key_first"
    by (simp add: evictLRU_def Map_keys_def empty_key_first_def)
  have f: "size_ge (cache_size empty_key_first) (maxSize demo_cfg)"
    by (simp add: size_ge_def cache_size_def empty_key_first_def demo_cfg_def)
  have n: "\<not> Map_has ''c'' (entries empty_key_first)"
    by (simp add: Map_has_def empty_key_first_def)
  from evict_while_full_stuck[OF e f] n
  have s: "LRUCache_set demo_cfg 2 ''c'' VPrim empty_key_first = None"
    by (simp add: LRUCache_set_def demo_cfg_def)
  have "run_ops demo_cfg [(0, Set [] VPrim), (1, Set ''b'' VPrim), (2, Set ''c'' VPrim)] new_cache
      = (case run_ops demo_cfg [(0, Set [] VPrim), (1, Set ''b'' VPrim)] new_cache of
           None \<Rightarrow> None
         | Some c \<Rightarrow> LRUCache_set demo_cfg 2 ''c'' VPrim c)"
    by (simp add: apply_op_def split: option.splits)
  with r s e show ?thesis by simp
qed

text \<open>
  Away from that case the order is least recently used first (lemmas
  \<open>LRUCache_get_hit\<close>, \<open>LRUCache_set_entries\<close>, \<open>lru_scenario\<close>): on keys \<open>a\<close>, \<open>b\<close>, \<open>c\<close> the
  three calls leave \<open>a\<close> a miss and \<open>b\<close>, \<open>c\<close> hits.
\<close>

lemma lru_scenario_abc:
  "\<exists>s3 s4 s5 s6.
     run_ops demo_cfg [(0, Set ''a'' VPrim), (1, Set ''b'' VPrim), (2, Set ''c'' VPrim)]
       new_cache = Some s3
     \<and> LRUCache_get demo_cfg 4 ''a'' s3 = (None, s4)
     \<and> LRUCache_get demo_cfg 5 ''b'' s4 = (Some VPrim, s5)
     \<and> LRUCache_get demo_cfg 6 ''c'' s5 = (Some VPrim, s6)"
  by (rule lru_scenario) (simp_all add: demo_cfg_def expired_def age_gt_def new_entry_def)

text \<open>
  Claim C10: when key \<open>k\<close> is present and the cache is full (\<open>size = maxSize\<close>),
  \<^verbatim>\<open>set(k, v)\<close> returns, evicts nothing, and every other key keeps its entry; with the
  cache enabled, \<open>k\<close>'s old entry is replaced by the new one at the most-recently-used end.
\<close>

theorem set_present_key_keeps_others:
  assumes "Map_has k (entries c)" and "maxSize cfg = Num (real (cache_size c))"
  shows "\<exists>c'. LRUCache_set cfg now k v c = Some c'
           \<and> (\<forall>k'. k' \<noteq> k \<longrightarrow> Map_get k' (entries c') = Map_get k' (entries c))
           \<and> (\<forall>k'. k' \<noteq> k \<and> Map_has k' (entries c) \<longrightarrow> Map_has k' (entries c'))
           \<and> evictions c' = evictions c
           \<and> (enabled cfg \<longrightarrow> entries c' = Map_delete k (entries c) @ [(k, new_entry now v)])"
proof (cases "enabled cfg")
  case False
  then show ?thesis by (simp add: LRUCache_set_def)
next
  case True
  let ?c1 = "c\<lparr>entries := Map_delete k (entries c)\<rparr>"
  from length_Map_delete_less[OF assms(1)] assms(2)
  have "\<not> size_ge (cache_size ?c1) (maxSize cfg)" by (simp add: cache_size_def size_ge_def)
  then have ev: "evict_while_full cfg ?c1 = Some ?c1" by (rule evict_while_full_not_full)
  have s: "LRUCache_set cfg now k v c =
      Some (?c1\<lparr>entries := Map_delete k (entries c) @ [(k, new_entry now v)]\<rparr>)"
    using True assms(1) ev by (simp add: LRUCache_set_def Map_set_absent not_has_Map_delete)
  show ?thesis
    unfolding s
    by (simp add: Map_get_append_other Map_get_delete_other Map_has_def Map_get_def[symmetric])
qed

theorem set_present_key_keeps_others_witness:
  "Map_has ''a'' (entries demo_two) \<and> maxSize demo_cfg = Num (real (cache_size demo_two))
   \<and> (\<exists>c'. LRUCache_set demo_cfg 7 ''a'' (VString ''new'') demo_two = Some c'
           \<and> (\<forall>k'. k' \<noteq> ''a'' \<longrightarrow> Map_get k' (entries c') = Map_get k' (entries demo_two))
           \<and> (\<forall>k'. k' \<noteq> ''a'' \<and> Map_has k' (entries demo_two) \<longrightarrow> Map_has k' (entries c'))
           \<and> evictions c' = evictions demo_two
           \<and> (enabled demo_cfg \<longrightarrow>
                entries c' = Map_delete ''a'' (entries demo_two)
                               @ [(''a'', new_entry 7 (VString ''new''))]))"
proof -
  have h: "Map_has ''a'' (entries demo_two)"
    "maxSize demo_cfg = Num (real (cache_size demo_two))"
    by (simp_all add: demo_two_def demo_cfg_def Map_has_def cache_size_def)
  from set_present_key_keeps_others[OF h, of 7 "VString ''new''"] h show ?thesis by blast
qed


section \<open>Properties of the rate limiter\<close>

lemma ceil_seconds_real: "ceil_seconds x = \<lceil>real_of_int x / 1000\<rceil>"
  unfolding ceil_seconds_def
  by (metis ceiling_divide_eq_div of_int_numeral)

lemma ceil_seconds_pos: "0 < x \<Longrightarrow> 0 < ceil_seconds x"
  unfolding ceil_seconds_def by linarith

lemma checkLimit_at_max:
  assumes "rateLimiting_enabled cfg" "store ident = Some e" "now < resetTime e"
    "maxRequests cfg \<le> count e"
  shows "checkLimit cfg now ident store =
      (\<lparr>allowed = False, remaining = 0, result_resetTime = resetTime e,
        retryAfter = Some \<lceil>real_of_int (resetTime e - now) / 1000\<rceil>\<rparr>, store)"
  using assms by (simp add: checkLimit_def ceil_seconds_real)

lemma checkLimit_fresh:
  assumes "rateLimiting_enabled cfg"
    "case store ident of None \<Rightarrow> True | Some e \<Rightarrow> resetTime e \<le> now"
  shows "checkLimit cfg now ident store =
      (\<lparr>allowed = True, remaining = maxRequests cfg - 1,
        result_resetTime = now + windowMs cfg, retryAfter = None\<rparr>,
       store(ident \<mapsto> fresh_window cfg now))"
  using assms by (auto simp: checkLimit_def split: option.splits)

lemma checkLimit_below_max:
  assumes "rateLimiting_enabled cfg" "store ident = Some e" "now < resetTime e"
    "count e < maxRequests cfg"
  shows "checkLimit cfg now ident store =
      (\<lparr>allowed = True, remaining = maxRequests cfg - (count e + 1),
        result_resetTime = resetTime e, retryAfter = None\<rparr>,
       store(ident \<mapsto> e\<lparr>count := count e + 1\<rparr>))"
  using assms by (simp add: checkLimit_def Let_def)

lemma four_calls:
  assumes en: "rateLimiting_enabled cfg" and m: "maxRequests cfg = 3"
    and f: "case store ident of None \<Rightarrow> True | Some e \<Rightarrow> resetTime e \<le> t1"
    and t: "t2 < t1 + windowMs cfg" "t3 < t1 + windowMs cfg" "t4 < t1 + windowMs cfg"
  shows "\<exists>r1 r2 r3 r4 store'.
      checkLimit_calls cfg ident [t1, t2, t3, t4] store = ([r1, r2, r3, r4], store')
      \<and> map allowed [r1, r2, r3, r4] = [True, True, True, False]
      \<and> retryAfter r4 = Some \<lceil>real_of_int (t1 + windowMs cfg - t4) / 1000\<rceil>
      \<and> 0 < \<lceil>real_of_int (t1 + windowMs cfg - t4) / 1000\<rceil>
      \<and> store' = snd (checkLimit_calls cfg ident [t1, t2, t3] store)
      \<and> map_option count (store' ident) = Some 3"
proof -
  let ?w = "fresh_window cfg t1"
  let ?s1 = "store(ident \<mapsto> ?w)"
  let ?s2 = "store(ident \<mapsto> ?w\<lparr>count := 2\<rparr>)"
  let ?s3 = "store(ident \<mapsto> ?w\<lparr>count := 3\<rparr>)"
  have 1: "checkLimit cfg t1 ident store =
      (\<lparr>allowed = True, remaining = 2, result_resetTime = t1 + windowMs cfg, retryAfter = None\<rparr>, ?s1)"
    using checkLimit_fresh[where cfg=cfg and store=store and ident=ident and now=t1] en f m by simp
  have 2: "checkLimit cfg t2 ident ?s1 =
      (\<lparr>allowed = True, remaining = 1, result_resetTime = t1 + windowMs cfg, retryAfter = None\<rparr>, ?s2)"
    using checkLimit_below_max[of cfg ?s1 ident ?w t2] en m t
    by (simp add: fresh_window_def)
  have 3: "checkLimit cfg t3 ident ?s2 =
      (\<lparr>allowed = True, remaining = 0, result_resetTime = t1 + windowMs cfg, retryAfter = None\<rparr>, ?s3)"
    using checkLimit_below_max[of cfg ?s2 ident "?w\<lparr>count := 2\<rparr>" t3] en m t
    by (simp add: fresh_window_def)
  have 4: "checkLimit cfg t4 ident ?s3 =
      (\<lparr>allowed = False, remaining = 0, result_resetTime = t1 + windowMs cfg,
        retryAfter = Some \<lceil>real_of_int (t1 + windowMs cfg - t4) / 1000\<rceil>\<rparr>, ?s3)"
    using checkLimit_at_max[of cfg ?s3 ident "?w\<lparr>count := 3\<rparr>" t4] en m t
    by (simp add: fresh_window_def)
  have pos: "0 < \<lceil>real_of_int (t1 + windowMs cfg - t4) / 1000\<rceil>"
    using t ceil_seconds_pos[of "t1 + windowMs cfg - t4"] by (simp add: ceil_seconds_real)
  show ?thesis
    using pos by (simp add: 1 2 3 4)
qed

text \<open>
  Claim C4: with rate limiting enabled, inside an unexpired window whose stored count has
  reached \<open>maxRequests\<close>, \<^verbatim>\<open>checkLimit\<close> returns \<open>allowed = False\<close> with
  \<open>retryAfter = \<lceil>(resetTime - now) / 1000\<rceil>\<close> and hands back the store unchanged; and with
  \<open>maxRequests = 3\<close>, four consecutive calls for one identifier, the first opening the
  window and the others inside it, are allowed, allowed, allowed, refused, the refusal
  with a positive \<open>retryAfter\<close> and the stored count left at 3.
\<close>

theorem checkLimit_rejects_at_limit:
  assumes "rateLimiting_enabled cfg"
  shows "(store ident = Some e \<and> now < resetTime e \<and> maxRequests cfg \<le> count e \<longrightarrow>
           checkLimit cfg now ident store =
             (\<lparr>allowed = False, remaining = 0, result_resetTime = resetTime e,
               retryAfter = Some \<lceil>real_of_int (resetTime e - now) / 1000\<rceil>\<rparr>, store))
       \<and> (maxRequests cfg = 3
            \<and> (case store ident of None \<Rightarrow> True | Some e0 \<Rightarrow> resetTime e0 \<le> t1)
            \<and> t2 < t1 + windowMs cfg \<and> t3 < t1 + windowMs cfg \<and> t4 < t1 + windowMs cfg \<longrightarrow>
            (\<exists>r1 r2 r3 r4 store'.
               checkLimit_calls cfg ident [t1, t2, t3, t4] store = ([r1, r2, r3, r4], store')
               \<and> map allowed [r1, r2, r3, r4] = [True, True, True, False]
               \<and> retryAfter r4 = Some \<lceil>real_of_int (t1 + windowMs cfg - t4) / 1000\<rceil>
               \<and> 0 < \<lceil>real_of_int (t1 + windowMs cfg - t4) / 1000\<rceil>
               \<and> store' = snd (checkLimit_calls cfg ident [t1, t2, t3] store)
               \<and> map_option count (store' ident) = Some 3))"
  using assms checkLimit_at_max[of cfg store ident e now]
    four_calls[where cfg = cfg and store = store and ident = ident and ?t1.0 = t1
      and ?t2.0 = t2 and ?t3.0 = t3 and ?t4.0 = t4]
  by blast

theorem checkLimit_rejects_at_limit_witness:
  "rateLimiting_enabled demo_rate
   \<and> full_store ''u'' = Some full_window \<and> 300 < resetTime full_window
   \<and> maxRequests demo_rate \<le> count full_window
   \<and> checkLimit demo_rate 300 ''u'' full_store =
        (\<lparr>allowed = False, remaining = 0, result_resetTime = 1000, retryAfter = Some 1\<rparr>,
         full_store)
   \<and> maxRequests demo_rate = 3
   \<and> (case Map.empty ''u'' of None \<Rightarrow> True | Some e0 \<Rightarrow> resetTime e0 \<le> 0)
   \<and> (100::int) < 0 + windowMs demo_rate \<and> (200::int) < 0 + windowMs demo_rate
   \<and> (300::int) < 0 + windowMs demo_rate
   \<and> (\<exists>r1 r2 r3 r4 store'.
         checkLimit_calls demo_rate ''u'' [0, 100, 200, 300] Map.empty = ([r1, r2, r3, r4], store')
         \<and> map allowed [r1, r2, r3, r4] = [True, True, True, False]
         \<and> retryAfter r4 = Some 1
         \<and> map_option count (store' ''u'') = Some 3)"
proof -
  have en: "rateLimiting_enabled demo_rate" by (simp add: demo_rate_def)
  have h1: "full_store ''u'' = Some full_window" "300 < resetTime full_window"
    "maxRequests demo_rate \<le> count full_window"
    by (simp_all add: full_store_def full_window_def demo_rate_def)
  have h2: "maxRequests demo_rate = 3"
    "case Map.empty ''u'' of None \<Rightarrow> True | Some e0 \<Rightarrow> resetTime e0 \<le> 0"
    "(100::int) < 0 + windowMs demo_rate" "(200::int) < 0 + windowMs demo_rate"
    "(300::int) < 0 + windowMs demo_rate"
    by (simp_all add: demo_rate_def)
  have c1: "\<lceil>real_of_int (resetTime full_window - 300) / 1000\<rceil> = 1"
    unfolding ceil_seconds_real[symmetric] by (simp add: ceil_seconds_def full_window_def)
  have c2: "\<lceil>real_of_int (0 + windowMs demo_rate - 300) / 1000\<rceil> = 1"
    unfolding ceil_seconds_real[symmetric] by (simp add: ceil_seconds_def demo_rate_def)
  note at_limit = checkLimit_rejects_at_limit[OF en]
  from at_limit[where store = full_store and ident = "''u''" and e = full_window and now = 300,
      THEN conjunct1, THEN mp] h1
  have a: "checkLimit demo_rate 300 ''u'' full_store =
        (\<lparr>allowed = False, remaining = 0, result_resetTime = 1000, retryAfter = Some 1\<rparr>,
         full_store)"
    unfolding c1 by (simp add: full_window_def)
  have pre: "maxRequests demo_rate = 3
      \<and> (case Map.empty ''u'' of None \<Rightarrow> True | Some e0 \<Rightarrow> resetTime e0 \<le> 0)
      \<and> (100::int) < 0 + windowMs demo_rate \<and> (200::int) < 0 + windowMs demo_rate
      \<and> (300::int) < 0 + windowMs demo_rate"
    by (intro conjI h2)
  from at_limit[where store = Map.empty and ident = "''u''" and ?t1.0 = 0 and ?t2.0 = 100
      and ?t3.0 = 200 and ?t4.0 = 300, THEN conjunct2, THEN mp, OF pre]
  obtain r1 r2 r3 r4 store' where
    "checkLimit_calls demo_rate ''u'' [0, 100, 200, 300] Map.empty = ([r1, r2, r3, r4], store')"
    "map allowed [r1, r2, r3, r4] = [True, True, True, False]"
    "retryAfter r4 = Some 1" "map_option count (store' ''u'') = Some 3"
    unfolding c2 by metis
  then have b: "\<exists>r1 r2 r3 r4 store'.
         checkLimit_calls demo_rate ''u'' [0, 100, 200, 300] Map.empty = ([r1, r2, r3, r4], store')
         \<and> map allowed [r1, r2, r3, r4] = [True, True, True, False]
         \<and> retryAfter r4 = Some 1
         \<and> map_option count (store' ''u'') = Some 3"
    by (intro exI conjI)
  from en h1 h2 a b show ?thesis by (intro conjI)
qed





section \<open>Properties of the security validator\<close>

lemma startsWith_dotdot:
  "startsWith s ''..'' \<Longrightarrow> match_here (literal ''..'') s"
  by (cases s; cases "tl s") (auto simp: startsWith_def literal_def lit_def)

lemma includes_dotdot_search:
  "String_includes s ''..'' \<Longrightarrow> search (literal ''..'') s"
  by (induction s) (auto simp: startsWith_dotdot)

lemma traversal_pattern_first:
  "String_includes s ''..'' \<Longrightarrow> list_ex (\<lambda>pattern. test pattern s) DANGEROUS_PATTERNS"
  by (simp add: DANGEROUS_PATTERNS_def test_def unanchored_def includes_dotdot_search)





text \<open>
  Claim C1, as the code has it: every input that contains \<open>..\<close>, in the raw string or in
  its normalized form, is rejected by \<^verbatim>\<open>validatePath\<close>, whatever the path functions, the
  configured directories and the options. When the raw string contains \<open>..\<close> and is not
  longer than \<open>maxLength\<close>, the reason is the one of the dangerous-pattern scan,
  \<^verbatim>\<open>Path contains dangerous patterns\<close>: that reason is raised exactly for the non-empty
  inputs within \<open>maxLength\<close> that match some entry of \<^verbatim>\<open>DANGEROUS_PATTERNS\<close>, whichever it
  is. The reason specific to traversal, \<^verbatim>\<open>Path traversal detected after normalization\<close>, is
  raised exactly for the non-empty inputs within \<open>maxLength\<close> that match no dangerous
  pattern (so have no \<open>..\<close> themselves) and whose normalized form contains \<open>..\<close>.
\<close>

theorem validatePath_rejects_dotdot:
  "(String_includes inputPath ''..'' \<or> String_includes (normalize path inputPath) ''..'' \<longrightarrow>
      (\<exists>reason. validatePath path sc opts inputPath = Inl reason
         \<and> reason \<in> {InvalidPath, PathTooLong (length inputPath) (maxLength opts),
                      PathContainsDangerousPatterns, PathTraversalAfterNormalization}))
   \<and> (String_includes inputPath ''..'' \<and> int (length inputPath) \<le> maxLength opts \<longrightarrow>
        validatePath path sc opts inputPath = Inl PathContainsDangerousPatterns)
   \<and> (validatePath path sc opts inputPath = Inl PathContainsDangerousPatterns \<longleftrightarrow>
        inputPath \<noteq> [] \<and> int (length inputPath) \<le> maxLength opts
        \<and> (\<exists>pattern \<in> set DANGEROUS_PATTERNS. test pattern inputPath))
   \<and> (validatePath path sc opts inputPath = Inl PathTraversalAfterNormalization \<longleftrightarrow>
        inputPath \<noteq> [] \<and> int (length inputPath) \<le> maxLength opts
        \<and> \<not> (\<exists>pattern \<in> set DANGEROUS_PATTERNS. test pattern inputPath)
        \<and> String_includes (normalize path inputPath) ''..'')
   \<and> (validatePath path sc opts inputPath = Inl PathTraversalAfterNormalization \<longrightarrow>
        \<not> String_includes inputPath ''..'')"
proof -
  have raw: "\<exists>pattern \<in> set DANGEROUS_PATTERNS. test pattern inputPath"
    if "String_includes inputPath ''..''"
    using traversal_pattern_first[OF that] by (simp add: list_ex_iff)
  have ne: "inputPath \<noteq> []" if "String_includes inputPath ''..''"
    using that by auto
  have 3: "validatePath path sc opts inputPath = Inl PathContainsDangerousPatterns \<longleftrightarrow>
        inputPath \<noteq> [] \<and> int (length inputPath) \<le> maxLength opts
        \<and> (\<exists>pattern \<in> set DANGEROUS_PATTERNS. test pattern inputPath)"
    by (auto simp: validatePath_def Let_def list_ex_iff split: if_splits option.splits)
  have 4: "validatePath path sc opts inputPath = Inl PathTraversalAfterNormalization \<longleftrightarrow>
        inputPath \<noteq> [] \<and> int (length inputPath) \<le> maxLength opts
        \<and> \<not> (\<exists>pattern \<in> set DANGEROUS_PATTERNS. test pattern inputPath)
        \<and> String_includes (normalize path inputPath) ''..''"
    by (auto simp: validatePath_def Let_def list_ex_iff split: if_splits option.splits)
  have 2: "validatePath path sc opts inputPath = Inl PathContainsDangerousPatterns"
    if "String_includes inputPath ''..''" "int (length inputPath) \<le> maxLength opts"
    using that raw ne 3 by blast
  have 5: "\<not> String_includes inputPath ''..''"
    if "validatePath path sc opts inputPath = Inl PathTraversalAfterNormalization"
    using that raw 4 by blast
  have 1: "\<exists>reason. validatePath path sc opts inputPath = Inl reason
         \<and> reason \<in> {InvalidPath, PathTooLong (length inputPath) (maxLength opts),
                      PathContainsDangerousPatterns, PathTraversalAfterNormalization}"
    if "String_includes inputPath ''..'' \<or> String_includes (normalize path inputPath) ''..''"
    using that by (auto simp: validatePath_def Let_def traversal_pattern_first)
  from 1 2 3 4 5 show ?thesis by blast
qed

theorem validatePath_rejects_dotdot_witness:
  "(String_includes ''a/b/../c'' ''..''
      \<or> String_includes (normalize demo_path ''a/b/../c'') ''..'')
   \<and> String_includes ''a/b/../c'' ''..''
   \<and> int (length ''a/b/../c'') \<le> maxLength default_options
   \<and> validatePath demo_path default_securityConfig default_options ''a/b/../c''
       = Inl PathContainsDangerousPatterns
   \<and> (\<exists>pattern \<in> set DANGEROUS_PATTERNS. test pattern ''a/b/../c'')
   \<and> ''x'' \<noteq> [] \<and> int (length ''x'') \<le> maxLength default_options
   \<and> \<not> (\<exists>pattern \<in> set DANGEROUS_PATTERNS. test pattern ''x'')
   \<and> String_includes (normalize climbing_path ''x'') ''..''
   \<and> validatePath climbing_path default_securityConfig default_options ''x''
       = Inl PathTraversalAfterNormalization
   \<and> \<not> String_includes ''x'' ''..''"
proof -
  have i: "String_includes ''a/b/../c'' ''..''"
    by (simp add: startsWith_def)
  then have h: "String_includes ''a/b/../c'' ''..''
      \<or> String_includes (normalize demo_path ''a/b/../c'') ''..''" ..
  have n: "int (length ''a/b/../c'') \<le> maxLength default_options"
    by (simp add: default_options_def)
  note rule_abc = validatePath_rejects_dotdot[where inputPath = "''a/b/../c''"
      and path = demo_path and sc = default_securityConfig and opts = default_options]
  have pre: "String_includes ''a/b/../c'' ''..''
      \<and> int (length ''a/b/../c'') \<le> maxLength default_options"
    by (intro conjI i n)
  from rule_abc[THEN conjunct2, THEN conjunct1, THEN mp, OF pre]
  have v: "validatePath demo_path default_securityConfig default_options ''a/b/../c''
       = Inl PathContainsDangerousPatterns" .
  from rule_abc[THEN conjunct2, THEN conjunct2, THEN conjunct1, THEN iffD1, OF v]
  have p: "\<exists>pattern \<in> set DANGEROUS_PATTERNS. test pattern ''a/b/../c''"
    by (elim conjE)
  have x: "''x'' \<noteq> []" "int (length ''x'') \<le> maxLength default_options"
    by (simp_all add: default_options_def)
  have "\<not> list_ex (\<lambda>pattern. test pattern ''x'') DANGEROUS_PATTERNS"
    by code_simp
  then have np: "\<not> (\<exists>pattern \<in> set DANGEROUS_PATTERNS. test pattern ''x'')"
    by (simp add: list_ex_iff)
  have c: "String_includes (normalize climbing_path ''x'') ''..''"
    by (simp add: climbing_path_def startsWith_def)
  note rule_x = validatePath_rejects_dotdot[where inputPath = "''x''"
      and path = climbing_path and sc = default_securityConfig and opts = default_options]
  have prex: "''x'' \<noteq> [] \<and> int (length ''x'') \<le> maxLength default_options
      \<and> \<not> (\<exists>pattern \<in> set DANGEROUS_PATTERNS. test pattern ''x'')
      \<and> String_includes (normalize climbing_path ''x'') ''..''"
    by (intro conjI x np c)
  from rule_x[THEN conjunct2, THEN conjunct2, THEN conjunct2, THEN conjunct1, THEN iffD2, OF prex]
  have t: "validatePath climbing_path default_securityConfig default_options ''x''
       = Inl PathTraversalAfterNormalization" .
  from rule_x[THEN conjunct2, THEN conjunct2, THEN conjunct2, THEN conjunct2, THEN mp, OF t]
  have nx: "\<not> String_includes ''x'' ''..''" .
  from h i n v p x np c t nx show ?thesis by (intro conjI)
qed

text \<open>
  The reason is not specific to traversal: the claim's two inputs are rejected with the
  reason that \<^verbatim>\<open>/proc/cpuinfo\<close>, which has no \<open>..\<close> before or after normalization, is
  rejected with.
\<close>

theorem traversal_reason_is_shared:
  "validatePath demo_path default_securityConfig default_options ''../../etc/passwd''
     = Inl PathContainsDangerousPatterns
   \<and> validatePath demo_path default_securityConfig default_options ''a/b/../c''
     = Inl PathContainsDangerousPatterns
   \<and> \<not> String_includes ''/proc/cpuinfo'' ''..''
   \<and> \<not> String_includes (normalize demo_path ''/proc/cpuinfo'') ''..''
   \<and> validatePath demo_path default_securityConfig default_options ''/proc/cpuinfo''
     = Inl PathContainsDangerousPatterns"
  by code_simp





section \<open>Properties of the concurrency limiter\<close>

lemma of_category_append [simp]:
  "of_category c (xs @ ys) = of_category c xs @ of_category c ys"
  by (simp add: of_category_def)

lemma of_category_Nil [simp]: "of_category c [] = []"
  by (simp add: of_category_def)

lemma of_category_Cons [simp]:
  "of_category c (x # xs) = (if fst x = c then snd x # of_category c xs else of_category c xs)"
  by (simp add: of_category_def)

lemma fifo_inv_new: "fifo_inv (new_monitor cfg)"
  by (simp add: fifo_inv_def new_monitor_def admitted_waiters_def queue_of_def new_limiter_def)

lemma filter_waited_fresh:
  fixes n :: nat
  assumes "list_all (\<lambda>x. snd x < n) xs"
  shows "filter (\<lambda>x. snd x \<in> insert n A) xs = filter (\<lambda>x. snd x \<in> A) xs"
  using assms by (induction xs) auto

lemma fifo_inv_call:
  assumes inv: "fifo_inv s" and c: "withConcurrencyLimit_call category s = Inr s'"
  shows "fifo_inv s'"
proof -
  from c obtain l where l: "concurrencyLimiters s category = Some l"
    by (auto simp: withConcurrencyLimit_call_def split: option.splits)
  let ?i = "nextCall s"
  have kn: "list_all (\<lambda>x. snd x < ?i) (started s)" "list_all (\<lambda>x. snd x < ?i) (enqueued s)"
    using inv by (auto simp: fifo_inv_def known_def list_all_iff)
  have notw: "?i \<notin> snd ` set (enqueued s)"
    using kn(2) by (auto simp: list_all_iff)
  show ?thesis
  proof (cases "maxConcurrent l \<le> current l")
    case True
    with c l have s': "s' = s\<lparr>nextCall := ?i + 1,
        concurrencyLimiters := (concurrencyLimiters s)(category \<mapsto> l\<lparr>queue := queue l @ [?i]\<rparr>),
        enqueued := enqueued s @ [(category, ?i)]\<rparr>"
      by (simp add: withConcurrencyLimit_call_def Let_def)
    have dom: "dom (concurrencyLimiters s') = dom (concurrencyLimiters s)"
      using l by (auto simp: s')
    have aw: "admitted_waiters c s' = admitted_waiters c s" for c
      using filter_waited_fresh[OF kn(1), of "snd ` set (enqueued s)"]
      by (simp add: admitted_waiters_def waited_def[abs_def] s')
    have q: "queue_of c s' = (if c = category then queue_of c s @ [?i] else queue_of c s)" for c
      using l by (simp add: queue_of_def s')
    have 4: "of_category c (enqueued s') =
        admitted_waiters c s' @ of_category c (jobs s') @ queue_of c s'" for c
      using inv unfolding aw q fifo_inv_def by (simp add: s')
    have "list_all (known s') (enqueued s')" "list_all (known s') (started s')"
      "list_all (\<lambda>x. fst x \<in> dom (concurrencyLimiters s')) (jobs s')"
      using inv l unfolding fifo_inv_def known_def dom
      by (auto simp: s' list_all_iff less_Suc_eq)
    with 4 show ?thesis unfolding fifo_inv_def by blast
  next
    case False
    with c l have s': "s' = s\<lparr>nextCall := ?i + 1,
        concurrencyLimiters := (concurrencyLimiters s)(category \<mapsto> l\<lparr>current := current l + 1\<rparr>),
        running := running s @ [(category, ?i)],
        started := started s @ [(category, ?i)]\<rparr>"
      by (simp add: withConcurrencyLimit_call_def Let_def acquire_def)
    have dom: "dom (concurrencyLimiters s') = dom (concurrencyLimiters s)"
      using l by (auto simp: s')
    have aw: "admitted_waiters c s' = admitted_waiters c s" for c
      using notw by (simp add: admitted_waiters_def waited_def[abs_def] s')
    have q: "queue_of c s' = queue_of c s" for c
      using l by (simp add: queue_of_def s')
    have 4: "of_category c (enqueued s') =
        admitted_waiters c s' @ of_category c (jobs s') @ queue_of c s'" for c
      using inv unfolding aw q fifo_inv_def by (simp add: s')
    have "list_all (known s') (enqueued s')" "list_all (known s') (started s')"
      "list_all (\<lambda>x. fst x \<in> dom (concurrencyLimiters s')) (jobs s')"
      using inv l unfolding fifo_inv_def known_def dom
      by (auto simp: s' list_all_iff less_Suc_eq)
    with 4 show ?thesis unfolding fifo_inv_def by blast
  qed
qed

lemma fifo_inv_resume:
  assumes inv: "fifo_inv s" and r: "resume_waiter s = Some s'"
  shows "fifo_inv s'"
proof -
  from r obtain category i rest where j: "jobs s = (category, i) # rest"
    and s'0: "s' = acquire category i (s\<lparr>jobs := rest\<rparr>)"
    by (auto simp: resume_waiter_def split: list.splits)
  from inv j obtain l where l: "concurrencyLimiters s category = Some l"
    by (auto simp: fifo_inv_def)
  have s': "s' = s\<lparr>jobs := rest,
      concurrencyLimiters := (concurrencyLimiters s)(category \<mapsto> l\<lparr>current := current l + 1\<rparr>),
      running := running s @ [(category, i)],
      started := started s @ [(category, i)]\<rparr>"
    using l by (simp add: s'0 acquire_def)
  have dom: "dom (concurrencyLimiters s') = dom (concurrencyLimiters s)"
    using l by (auto simp: s')
  from inv have "of_category category (enqueued s) =
      admitted_waiters category s @ of_category category (jobs s) @ queue_of category s"
    by (simp add: fifo_inv_def)
  then have "i \<in> set (of_category category (enqueued s))"
    by (simp add: j)
  then have w: "(category, i) \<in> set (enqueued s)"
    by (auto simp: of_category_def)
  then have wi: "waited s (category, i)"
    by (force simp: waited_def)
  have wd: "waited s' = waited s"
    by (simp add: waited_def[abs_def] s')
  have aw: "admitted_waiters c s' =
      (if c = category then admitted_waiters c s @ [i] else admitted_waiters c s)" for c
    using wi by (simp add: admitted_waiters_def wd) (simp add: s')
  have q: "queue_of c s' = queue_of c s" for c
    using l by (simp add: queue_of_def s')
  have 4: "of_category c (enqueued s') =
      admitted_waiters c s' @ of_category c (jobs s') @ queue_of c s'" for c
    using inv unfolding aw q fifo_inv_def by (simp add: s' j)
  have "known s (category, i)"
    using inv w by (auto simp: fifo_inv_def list_all_iff)
  then have "list_all (known s') (enqueued s')" "list_all (known s') (started s')"
    "list_all (\<lambda>x. fst x \<in> dom (concurrencyLimiters s')) (jobs s')"
    using inv l j unfolding fifo_inv_def known_def dom
    by (auto simp: s' list_all_iff)
  with 4 show ?thesis unfolding fifo_inv_def by blast
qed

lemma release_Some:
  assumes "concurrencyLimiters s category = Some l"
  shows "release category s =
    (case queue l of
       [] \<Rightarrow> s\<lparr>concurrencyLimiters := (concurrencyLimiters s)(category \<mapsto> l\<lparr>current := current l - 1\<rparr>)\<rparr>
     | w # ws \<Rightarrow> s\<lparr>concurrencyLimiters :=
                     (concurrencyLimiters s)(category \<mapsto> l\<lparr>current := current l - 1, queue := ws\<rparr>),
                   jobs := jobs s @ [(category, w)]\<rparr>)"
  using assms by (simp add: release_def Let_def split: list.splits)

lemma fifo_inv_release:
  assumes inv: "fifo_inv s"
  shows "fifo_inv (release category s)"
proof (cases "concurrencyLimiters s category")
  case None
  with inv show ?thesis by (simp add: release_def)
next
  case (Some l)
  show ?thesis
  proof (cases "queue l")
    case Nil
    let ?s' = "s\<lparr>concurrencyLimiters := (concurrencyLimiters s)(category \<mapsto> l\<lparr>current := current l - 1\<rparr>)\<rparr>"
    have r: "release category s = ?s'" by (simp add: release_Some[OF Some] Nil)
    have dom: "dom (concurrencyLimiters ?s') = dom (concurrencyLimiters s)"
      using Some by auto
    have aw: "admitted_waiters c ?s' = admitted_waiters c s" for c
      by (simp add: admitted_waiters_def waited_def[abs_def])
    have q: "queue_of c ?s' = queue_of c s" for c
      using Some by (simp add: queue_of_def)
    have 4: "of_category c (enqueued ?s') =
        admitted_waiters c ?s' @ of_category c (jobs ?s') @ queue_of c ?s'" for c
      using inv unfolding aw q fifo_inv_def by simp
    have "list_all (known ?s') (enqueued ?s')" "list_all (known ?s') (started ?s')"
      "list_all (\<lambda>x. fst x \<in> dom (concurrencyLimiters ?s')) (jobs ?s')"
      using inv unfolding fifo_inv_def known_def dom by simp_all
    with 4 show ?thesis unfolding r fifo_inv_def by blast
  next
    case (Cons w ws)
    let ?s' = "s\<lparr>concurrencyLimiters :=
                     (concurrencyLimiters s)(category \<mapsto> l\<lparr>current := current l - 1, queue := ws\<rparr>),
                   jobs := jobs s @ [(category, w)]\<rparr>"
    have r: "release category s = ?s'" by (simp add: release_Some[OF Some] Cons)
    have dom: "dom (concurrencyLimiters ?s') = dom (concurrencyLimiters s)"
      using Some by auto
    have aw: "admitted_waiters c ?s' = admitted_waiters c s" for c
      by (simp add: admitted_waiters_def waited_def[abs_def])
    have q: "queue_of category s = w # ws" "queue_of category ?s' = ws"
      "c \<noteq> category \<Longrightarrow> queue_of c ?s' = queue_of c s" for c
      using Some Cons by (simp_all add: queue_of_def)
    have 4: "of_category c (enqueued ?s') =
        admitted_waiters c ?s' @ of_category c (jobs ?s') @ queue_of c ?s'" for c
    proof (cases "c = category")
      case True
      from inv have "of_category c (enqueued s) =
          admitted_waiters c s @ of_category c (jobs s) @ queue_of c s"
        by (simp add: fifo_inv_def)
      then show ?thesis unfolding aw by (simp add: True q)
    next
      case False
      from inv have "of_category c (enqueued s) =
          admitted_waiters c s @ of_category c (jobs s) @ queue_of c s"
        by (simp add: fifo_inv_def)
      then show ?thesis unfolding aw using False by (simp add: q)
    qed
    have "list_all (known ?s') (enqueued ?s')" "list_all (known ?s') (started ?s')"
      "list_all (\<lambda>x. fst x \<in> dom (concurrencyLimiters ?s')) (jobs ?s')"
      using inv Some unfolding fifo_inv_def known_def dom by auto
    with 4 show ?thesis unfolding r fifo_inv_def by blast
  qed
qed

lemma fifo_inv_settle:
  assumes inv: "fifo_inv s" and r: "operation_settles i result s = Some s'"
  shows "fifo_inv s'"
proof -
  from r obtain category where
    s': "s' = release category (s\<lparr>running := remove1 (category, i) (running s),
                                   settled := settled s @ [(i, result)]\<rparr>)"
    by (auto simp: operation_settles_def split: option.splits)
  have "fifo_inv (s\<lparr>running := remove1 (category, i) (running s),
                    settled := settled s @ [(i, result)]\<rparr>)"
    using inv by (simp add: fifo_inv_def known_def[abs_def] admitted_waiters_def
        waited_def[abs_def] queue_of_def)
  then show ?thesis unfolding s' by (rule fifo_inv_release)
qed

lemma fifo_inv_step:
  assumes "fifo_inv s" and "step s e = Some s'"
  shows "fifo_inv s'"
  using assms
  by (cases e)
    (auto simp: step_def split: sum.splits intro: fifo_inv_call fifo_inv_resume fifo_inv_settle)

lemma in_flight_append:
  "in_flight c (s\<lparr>running := running s @ [(category, i)]\<rparr>) =
     (if c = category then in_flight c s + 1 else in_flight c s)"
  by (simp add: in_flight_def)

lemma slots_inv_new: "slots_inv (new_monitor cfg)"
  by (simp add: slots_inv_def new_monitor_def in_flight_def new_limiter_def)

lemma unique_inv_new: "unique_inv (new_monitor cfg)"
  by (simp add: unique_inv_def new_monitor_def)

lemma slots_inv_acquire:
  assumes "slots_inv s"
  shows "slots_inv (acquire category i s)"
proof (cases "concurrencyLimiters s category")
  case None
  with assms show ?thesis by (simp add: acquire_def)
next
  case (Some l)
  with assms show ?thesis
    by (auto simp: acquire_def slots_inv_def in_flight_def)
qed

lemma slots_inv_call:
  assumes "slots_inv s" and "withConcurrencyLimit_call category s = Inr s'"
  shows "slots_inv s'"
proof -
  from assms(2) obtain l where l: "concurrencyLimiters s category = Some l"
    by (auto simp: withConcurrencyLimit_call_def split: option.splits)
  have n: "slots_inv (s\<lparr>nextCall := nextCall s + 1\<rparr>)"
    using assms(1) by (simp add: slots_inv_def in_flight_def)
  show ?thesis
  proof (cases "maxConcurrent l \<le> current l")
    case True
    with assms l show ?thesis
      by (auto simp: withConcurrencyLimit_call_def Let_def slots_inv_def in_flight_def
          split: if_splits)
  next
    case False
    with assms(2) l have "s' = acquire category (nextCall s) (s\<lparr>nextCall := nextCall s + 1\<rparr>)"
      by (simp add: withConcurrencyLimit_call_def Let_def)
    with slots_inv_acquire[OF n] show ?thesis by simp
  qed
qed

lemma slots_inv_resume:
  assumes "slots_inv s" and "resume_waiter s = Some s'"
  shows "slots_inv s'"
proof -
  from assms(2) obtain category i rest where
    s': "s' = acquire category i (s\<lparr>jobs := rest\<rparr>)"
    by (auto simp: resume_waiter_def split: list.splits)
  have "slots_inv (s\<lparr>jobs := rest\<rparr>)"
    using assms(1) by (simp add: slots_inv_def in_flight_def)
  then show ?thesis unfolding s' by (rule slots_inv_acquire)
qed

lemma length_filter_pos: "x \<in> set xs \<Longrightarrow> P x \<Longrightarrow> 0 < length (filter P xs)"
  by (induction xs) auto

lemma length_filter_remove1:
  "x \<in> set xs \<Longrightarrow> P x \<Longrightarrow> length (filter P (remove1 x xs)) = length (filter P xs) - 1"
proof (induction xs)
  case Nil
  then show ?case by simp
next
  case (Cons a xs)
  show ?case
  proof (cases "x = a")
    case True
    then show ?thesis using Cons.prems by simp
  next
    case False
    with Cons.prems have "x \<in> set xs" by simp
    from Cons.IH[OF this Cons.prems(2)] length_filter_pos[of x xs P] this Cons.prems(2)
    show ?thesis using False by simp
  qed
qed

lemma filter_remove1_other:
  "\<not> P x \<Longrightarrow> filter P (remove1 x xs) = filter P xs"
  by (induction xs) auto

lemma find_running:
  assumes "find (\<lambda>r. snd r = i) xs = Some (category, j)"
  shows "(category, i) \<in> set xs \<and> j = i"
  using assms by (induction xs) (auto split: if_splits)

lemma in_flight_pos: "(category, i) \<in> set (running s) \<Longrightarrow> 0 < in_flight category s"
  using length_filter_pos[of "(category, i)" "running s" "\<lambda>r. fst r = category"]
  by (simp add: in_flight_def)

lemma settle_effect:
  assumes f: "find (\<lambda>r. snd r = i) (running s) = Some (category, j)"
    and l: "concurrencyLimiters s category = Some l"
  shows "\<exists>s' l'. operation_settles i result s = Some s'
      \<and> concurrencyLimiters s' category = Some l'
      \<and> current l' = current l - 1
      \<and> maxConcurrent l' = maxConcurrent l
      \<and> running s' = remove1 (category, i) (running s)
      \<and> in_flight category s' = in_flight category s - 1
      \<and> settled s' = settled s @ [(i, result)]
      \<and> (case queue l of
            [] \<Rightarrow> jobs s' = jobs s \<and> queue l' = []
          | w # ws \<Rightarrow> jobs s' = jobs s @ [(category, w)] \<and> queue l' = ws)
      \<and> (\<forall>c. c \<noteq> category \<longrightarrow> concurrencyLimiters s' c = concurrencyLimiters s c
             \<and> in_flight c s' = in_flight c s)"
proof -
  from find_running[OF f] have m: "(category, i) \<in> set (running s)" by simp
  let ?s1 = "s\<lparr>running := remove1 (category, i) (running s), settled := settled s @ [(i, result)]\<rparr>"
  have o: "operation_settles i result s = Some (release category ?s1)"
    using f by (simp add: operation_settles_def)
  have l1: "concurrencyLimiters ?s1 category = Some l" using l by simp
  have fl: "in_flight category ?s1 = in_flight category s - 1"
    using m by (simp add: in_flight_def length_filter_remove1)
  have fo: "c \<noteq> category \<Longrightarrow> in_flight c ?s1 = in_flight c s" for c
    by (simp add: in_flight_def filter_remove1_other)
  show ?thesis
    unfolding o release_Some[OF l1]
    using fl fo by (cases "queue l") (simp_all add: in_flight_def)
qed

lemma slots_inv_settle:
  assumes inv: "slots_inv s" and r: "operation_settles i result s = Some s'"
  shows "slots_inv s'"
proof -
  from r obtain category j where f: "find (\<lambda>r. snd r = i) (running s) = Some (category, j)"
    by (auto simp: operation_settles_def split: option.splits)
  from find_running[OF f] have m: "(category, i) \<in> set (running s)" by simp
  show ?thesis
  proof (cases "concurrencyLimiters s category")
    case None
    with f r have s': "s' = s\<lparr>running := remove1 (category, i) (running s),
        settled := settled s @ [(i, result)]\<rparr>"
      by (simp add: operation_settles_def release_def)
    have "in_flight c s' = in_flight c s" if "c \<noteq> category" for c
      using that by (simp add: s' in_flight_def filter_remove1_other)
    with inv None show ?thesis
      unfolding slots_inv_def by (metis monitor.select_convs(1) monitor.surjective
          monitor.update_convs(4) monitor.update_convs(7) option.distinct(1) s')
  next
    case (Some l)
    from settle_effect[OF f Some, of result] r obtain l' where
      a: "concurrencyLimiters s' category = Some l'" "current l' = current l - 1"
      "in_flight category s' = in_flight category s - 1"
      and b: "\<forall>c. c \<noteq> category \<longrightarrow> concurrencyLimiters s' c = concurrencyLimiters s c
             \<and> in_flight c s' = in_flight c s"
      by auto
    from in_flight_pos[OF m] have "int (in_flight category s - 1) = int (in_flight category s) - 1"
      by simp
    with inv Some a b show ?thesis
      unfolding slots_inv_def by (metis option.inject)
  qed
qed

lemma slots_inv_step:
  assumes "slots_inv s" and "step s e = Some s'"
  shows "slots_inv s'"
  using assms
  by (cases e)
    (auto simp: step_def split: sum.splits intro: slots_inv_call slots_inv_resume slots_inv_settle)

lemma unique_inv_acquire_fresh:
  assumes u: "unique_inv s" and fr: "i \<notin> snd ` set (started s)"
  shows "unique_inv (acquire category i s)"
proof (cases "concurrencyLimiters s category")
  case None
  with u show ?thesis by (simp add: acquire_def)
next
  case (Some l)
  from u have sub: "set (running s) \<subseteq> set (started s)" by (simp add: unique_inv_def)
  with fr have "i \<notin> snd ` set (running s)" by auto
  with u fr Some show ?thesis
    by (auto simp: acquire_def unique_inv_def)
qed

lemma unique_inv_call:
  assumes f: "fifo_inv s" and u: "unique_inv s"
    and c: "withConcurrencyLimit_call category s = Inr s'"
  shows "unique_inv s'"
proof -
  from c obtain l where l: "concurrencyLimiters s category = Some l"
    by (auto simp: withConcurrencyLimit_call_def split: option.splits)
  have fr: "nextCall s \<notin> snd ` set (started s)" "nextCall s \<notin> snd ` set (enqueued s)"
    using f by (auto simp: fifo_inv_def known_def list_all_iff)
  show ?thesis
  proof (cases "maxConcurrent l \<le> current l")
    case True
    with c l u fr show ?thesis
      by (auto simp: withConcurrencyLimit_call_def Let_def unique_inv_def)
  next
    case False
    have u1: "unique_inv (s\<lparr>nextCall := nextCall s + 1\<rparr>)"
      using u by (simp add: unique_inv_def)
    from False c l have "s' = acquire category (nextCall s) (s\<lparr>nextCall := nextCall s + 1\<rparr>)"
      by (simp add: withConcurrencyLimit_call_def Let_def)
    with unique_inv_acquire_fresh[OF u1, of "nextCall s" category] fr show ?thesis by simp
  qed
qed

lemma same_id_same_category:
  "distinct (map snd xs) \<Longrightarrow> (a, i) \<in> set xs \<Longrightarrow> (b, i) \<in> set xs \<Longrightarrow> a = b"
  by (induction xs) (force+)

lemma distinct_map_remove1:
  "distinct (map f xs) \<Longrightarrow> distinct (map f (remove1 x xs))"
proof (induction xs)
  case Nil
  then show ?case by simp
next
  case (Cons a xs)
  then have "f a \<notin> f ` set (remove1 x xs)"
    using set_remove1_subset[of x xs] by auto
  with Cons show ?case by simp
qed

lemma distinct_of_category:
  "distinct (map snd xs) \<Longrightarrow> distinct (of_category c xs)"
  by (simp add: of_category_def distinct_map_filter)

lemma in_of_category: "i \<in> set (of_category c xs) \<longleftrightarrow> (c, i) \<in> set xs"
  by (force simp: of_category_def)

lemma job_not_started:
  assumes f: "fifo_inv s" and u: "unique_inv s" and j: "jobs s = (category, i) # rest"
  shows "i \<notin> snd ` set (started s)"
proof
  assume "i \<in> snd ` set (started s)"
  then obtain c where c: "(c, i) \<in> set (started s)" by auto
  from f have dec: "of_category k (enqueued s) =
      admitted_waiters k s @ of_category k (jobs s) @ queue_of k s" for k
    by (simp add: fifo_inv_def)
  from dec[of category] j have e: "(category, i) \<in> set (enqueued s)"
    by (simp add: in_of_category[symmetric])
  then have "waited s (c, i)" by (force simp: waited_def)
  with c have "i \<in> set (admitted_waiters c s)"
    by (simp add: admitted_waiters_def in_of_category)
  with dec[of c] have "(c, i) \<in> set (enqueued s)"
    by (simp add: in_of_category[symmetric])
  with e u have "c = category"
    unfolding unique_inv_def by (blast intro: same_id_same_category)
  with \<open>i \<in> set (admitted_waiters c s)\<close> have a: "i \<in> set (admitted_waiters category s)" by simp
  from u have "distinct (of_category category (enqueued s))"
    by (simp add: unique_inv_def distinct_of_category)
  with dec[of category] j a show False by simp
qed

lemma unique_inv_resume:
  assumes f: "fifo_inv s" and u: "unique_inv s" and r: "resume_waiter s = Some s'"
  shows "unique_inv s'"
proof -
  from r obtain category i rest where j: "jobs s = (category, i) # rest"
    and s': "s' = acquire category i (s\<lparr>jobs := rest\<rparr>)"
    by (auto simp: resume_waiter_def split: list.splits)
  have "unique_inv (s\<lparr>jobs := rest\<rparr>)" using u by (simp add: unique_inv_def)
  moreover have "i \<notin> snd ` set (started (s\<lparr>jobs := rest\<rparr>))"
    using job_not_started[OF f u j] by simp
  ultimately show ?thesis unfolding s' by (rule unique_inv_acquire_fresh)
qed

lemma unique_inv_release: "unique_inv s \<Longrightarrow> unique_inv (release category s)"
  by (auto simp: release_def unique_inv_def Let_def split: option.splits list.splits)

lemma unique_inv_settle:
  assumes u: "unique_inv s" and r: "operation_settles i result s = Some s'"
  shows "unique_inv s'"
proof -
  from r obtain category where
    s': "s' = release category (s\<lparr>running := remove1 (category, i) (running s),
                                   settled := settled s @ [(i, result)]\<rparr>)"
    by (auto simp: operation_settles_def split: option.splits)
  have "distinct (map snd (remove1 (category, i) (running s)))"
    using u by (simp add: unique_inv_def distinct_map_remove1)
  moreover have "set (remove1 (category, i) (running s)) \<subseteq> set (started s)"
    using u set_remove1_subset[of "(category, i)" "running s"] by (auto simp: unique_inv_def)
  ultimately have "unique_inv (s\<lparr>running := remove1 (category, i) (running s),
                    settled := settled s @ [(i, result)]\<rparr>)"
    using u by (simp add: unique_inv_def)
  then show ?thesis unfolding s' by (rule unique_inv_release)
qed

lemma monitor_inv_step:
  assumes "monitor_inv s" and "step s e = Some s'"
  shows "monitor_inv s'"
proof -
  from assms(1) have f: "fifo_inv s" and u: "unique_inv s" and sl: "slots_inv s"
    by (simp_all add: monitor_inv_def)
  have "unique_inv s'"
    using assms(2) f u
    by (cases e)
      (auto simp: step_def split: sum.splits
        intro: unique_inv_call unique_inv_resume unique_inv_settle)
  with fifo_inv_step[OF f assms(2)] slots_inv_step[OF sl assms(2)]
  show ?thesis by (simp add: monitor_inv_def)
qed

lemma monitor_inv_run:
  "monitor_inv s \<Longrightarrow> run_events s es = Some s' \<Longrightarrow> monitor_inv s'"
proof (induction es arbitrary: s)
  case Nil
  then show ?case by simp
next
  case (Cons e es)
  from Cons.prems(2) obtain s1 where 1: "step s e = Some s1" and 2: "run_events s1 es = Some s'"
    by (auto split: option.splits)
  from monitor_inv_step[OF Cons.prems(1) 1] show ?case by (rule Cons.IH[OF _ 2])
qed

lemma monitor_inv_reachable:
  "run_events (new_monitor cfg) es = Some s \<Longrightarrow> monitor_inv s"
  using monitor_inv_run[of "new_monitor cfg" es s]
  by (simp add: monitor_inv_def fifo_inv_new unique_inv_new slots_inv_new)

lemma find_unique:
  assumes "distinct (map snd xs)" and "(category, i) \<in> set xs"
  shows "find (\<lambda>r. snd r = i) xs = Some (category, i)"
  using assms by (induction xs) (auto simp: rev_image_eqI)

lemma id_gone_after_remove1:
  "distinct (map snd xs) \<Longrightarrow> (c, i) \<in> set xs \<Longrightarrow> i \<notin> snd ` set (remove1 (c, i) xs)"
proof (induction xs)
  case Nil
  then show ?case by simp
next
  case (Cons a xs)
  show ?case
  proof (cases "a = (c, i)")
    case True
    with Cons.prems show ?thesis by simp
  next
    case False
    with Cons.prems have m: "(c, i) \<in> set xs" and d: "distinct (map snd xs)" by auto
    from Cons.prems m have "snd a \<noteq> i" by (force simp: image_iff)
    with Cons.IH[OF d m] False show ?thesis by simp
  qed
qed

text \<open>
  Claim C5: waiters are admitted first in, first out. In every state reached from the
  initial monitor by calls, settlements (fulfilled or rejected) and resumptions, the
  calls of a category that have waited, in the order they were pushed onto the queue,
  are: those whose operation has started, in the order of the starts; then those
  released and not yet resumed; then those still in the queue. So the waiters admitted
  so far are a prefix of the enqueue order. And when an operation in flight settles,
  either way, while the queue is not empty, the waiter released is the head of the queue.
\<close>

theorem waiters_admitted_fifo:
  assumes "run_events (new_monitor cfg) es = Some s"
  shows "of_category category (enqueued s) =
           admitted_waiters category s @ of_category category (jobs s) @ queue_of category s
       \<and> prefix (admitted_waiters category s) (of_category category (enqueued s))
       \<and> ((category, i) \<in> set (running s) \<and> queue_of category s = w # ws \<longrightarrow>
            (\<exists>s'. operation_settles i result s = Some s'
                  \<and> jobs s' = jobs s @ [(category, w)] \<and> queue_of category s' = ws))"
proof -
  from monitor_inv_reachable[OF assms] have f: "fifo_inv s" and u: "unique_inv s"
    by (simp_all add: monitor_inv_def)
  from f have 1: "of_category category (enqueued s) =
           admitted_waiters category s @ of_category category (jobs s) @ queue_of category s"
    by (simp add: fifo_inv_def)
  have 2: "prefix (admitted_waiters category s) (of_category category (enqueued s))"
    unfolding 1 by simp
  have 3: "\<exists>s'. operation_settles i result s = Some s'
                  \<and> jobs s' = jobs s @ [(category, w)] \<and> queue_of category s' = ws"
    if r: "(category, i) \<in> set (running s)" and q: "queue_of category s = w # ws"
  proof -
    from q obtain l where l: "concurrencyLimiters s category = Some l" and ql: "queue l = w # ws"
      by (auto simp: queue_of_def split: option.splits)
    from u have "distinct (map snd (running s))" by (simp add: unique_inv_def)
    from find_unique[OF this r] have "find (\<lambda>r. snd r = i) (running s) = Some (category, i)" .
    from settle_effect[OF this l, of result] ql show ?thesis
      by (auto simp: queue_of_def)
  qed
  from 1 2 3 show ?thesis by blast
qed

theorem waiters_admitted_fifo_witness:
  "(\<exists>s. run_events (new_monitor demo_limits)
           [Call ''commands'', Call ''commands'', Call ''commands'', Call ''commands'',
            Settle 0 Rejected, Resume, Settle 1 Fulfilled, Resume, Settle 2 Fulfilled, Resume]
         = Some s
       \<and> of_category ''commands'' (enqueued s) = [1, 2, 3]
       \<and> admitted_waiters ''commands'' s = [1, 2, 3]
       \<and> prefix (admitted_waiters ''commands'' s) (of_category ''commands'' (enqueued s)))
   \<and> (\<exists>s s'. run_events (new_monitor demo_limits)
           [Call ''commands'', Call ''commands'', Call ''commands'', Call ''commands''] = Some s
       \<and> (''commands'', 0) \<in> set (running s) \<and> queue_of ''commands'' s = [1, 2, 3]
       \<and> operation_settles 0 Rejected s = Some s'
       \<and> jobs s' = jobs s @ [(''commands'', 1)] \<and> queue_of ''commands'' s' = [2, 3])"
proof -
  let ?t1 = "[Call ''commands'', Call ''commands'', Call ''commands'', Call ''commands'',
            Settle 0 Rejected, Resume, Settle 1 Fulfilled, Resume, Settle 2 Fulfilled, Resume]"
  let ?t2 = "[Call ''commands'', Call ''commands'', Call ''commands'', Call ''commands'']"
  have "run_events (new_monitor demo_limits) ?t1 \<noteq> None" by code_simp
  then obtain s1 where s1: "run_events (new_monitor demo_limits) ?t1 = Some s1" by blast
  have "of_category ''commands'' (enqueued (the (run_events (new_monitor demo_limits) ?t1))) = [1, 2, 3]"
    "admitted_waiters ''commands'' (the (run_events (new_monitor demo_limits) ?t1)) = [1, 2, 3]"
    by code_simp+
  then have e1: "of_category ''commands'' (enqueued s1) = [1, 2, 3]"
    "admitted_waiters ''commands'' s1 = [1, 2, 3]"
    by (simp_all only: s1 option.sel)
  from waiters_admitted_fifo[OF s1, of "''commands''"]
  have p1: "prefix (admitted_waiters ''commands'' s1) (of_category ''commands'' (enqueued s1))"
    by blast
  have "run_events (new_monitor demo_limits) ?t2 \<noteq> None" by code_simp
  then obtain s2 where s2: "run_events (new_monitor demo_limits) ?t2 = Some s2" by blast
  have "(''commands'', 0) \<in> set (running (the (run_events (new_monitor demo_limits) ?t2)))"
    "queue_of ''commands'' (the (run_events (new_monitor demo_limits) ?t2)) = [1, 2, 3]"
    by code_simp+
  then have e2: "(''commands'', 0) \<in> set (running s2)" "queue_of ''commands'' s2 = [1, 2, 3]"
    by (simp_all only: s2 option.sel)
  from waiters_admitted_fifo[OF s2, of "''commands''" 0 1 "[2, 3]" Rejected] e2
  obtain s' where "operation_settles 0 Rejected s2 = Some s'"
    "jobs s' = jobs s2 @ [(''commands'', 1)]" "queue_of ''commands'' s' = [2, 3]"
    by blast
  with s1 e1 p1 s2 e2 show ?thesis by blast
qed

text \<open>
  Claim C6: a slot taken is given back exactly once, whatever the operation's result. In
  every reachable state \<open>current\<close> is the number of operations in flight for the category;
  when the operation of a call in flight settles, fulfilled or rejected, the \<^verbatim>\<open>finally\<close>
  step takes \<open>current\<close> down by one (still the number in flight), hands the head of the
  queue, if there is one, to the runtime for resumption, and the call, no longer in
  flight, cannot settle a second time.
\<close>

theorem slot_released_once:
  assumes reach: "run_events (new_monitor cfg) es = Some s"
    and l: "concurrencyLimiters s category = Some l"
    and r: "(category, i) \<in> set (running s)"
  shows "current l = int (in_flight category s)
    \<and> (\<exists>s' l'. operation_settles i result s = Some s'
          \<and> concurrencyLimiters s' category = Some l'
          \<and> current l' = current l - 1
          \<and> current l' = int (in_flight category s')
          \<and> (category, i) \<notin> set (running s')
          \<and> operation_settles i result' s' = None
          \<and> (case queue l of
                [] \<Rightarrow> jobs s' = jobs s \<and> queue l' = []
              | w # ws \<Rightarrow> jobs s' = jobs s @ [(category, w)] \<and> queue l' = ws))"
proof -
  from monitor_inv_reachable[OF reach] have u: "unique_inv s" and sl: "slots_inv s"
    by (simp_all add: monitor_inv_def)
  from sl l have c: "current l = int (in_flight category s)" by (simp add: slots_inv_def)
  from u have d: "distinct (map snd (running s))" by (simp add: unique_inv_def)
  from find_unique[OF d r] have f: "find (\<lambda>r. snd r = i) (running s) = Some (category, i)" .
  from settle_effect[OF f l, of result] obtain s' l' where
    e: "operation_settles i result s = Some s'" "concurrencyLimiters s' category = Some l'"
    "current l' = current l - 1" "running s' = remove1 (category, i) (running s)"
    "case queue l of [] \<Rightarrow> jobs s' = jobs s \<and> queue l' = []
       | w # ws \<Rightarrow> jobs s' = jobs s @ [(category, w)] \<and> queue l' = ws"
    by blast
  from id_gone_after_remove1[OF d r] e(4) have nr: "i \<notin> snd ` set (running s')" by simp
  then have gone: "(category, i) \<notin> set (running s')" by force
  from nr have "find (\<lambda>r. snd r = i) (running s') = None"
    by (force simp: find_None_iff)
  then have again: "operation_settles i result' s' = None"
    by (simp add: operation_settles_def)
  from r have "0 < in_flight category s" by (rule in_flight_pos)
  moreover have "in_flight category s' = in_flight category s - 1"
    using r by (simp add: in_flight_def e(4) length_filter_remove1)
  ultimately have "current l' = int (in_flight category s')"
    using c e(3) by simp
  with c e gone again show ?thesis by blast
qed

theorem slot_released_once_witness:
  "\<exists>s l. run_events (new_monitor demo_limits) [Call ''commands'', Call ''commands''] = Some s
     \<and> concurrencyLimiters s ''commands'' = Some l
     \<and> (''commands'', 0) \<in> set (running s)
     \<and> queue l = [1]
     \<and> current l = int (in_flight ''commands'' s)
     \<and> (\<exists>s' l'. operation_settles 0 Rejected s = Some s'
           \<and> concurrencyLimiters s' ''commands'' = Some l'
           \<and> current l' = current l - 1
           \<and> current l' = int (in_flight ''commands'' s')
           \<and> (''commands'', 0) \<notin> set (running s')
           \<and> operation_settles 0 Fulfilled s' = None
           \<and> jobs s' = jobs s @ [(''commands'', 1)] \<and> queue l' = [])"
proof -
  let ?t = "[Call ''commands'', Call ''commands'']"
  have "run_events (new_monitor demo_limits) ?t \<noteq> None" by code_simp
  then obtain s where s: "run_events (new_monitor demo_limits) ?t = Some s" by blast
  have "concurrencyLimiters (the (run_events (new_monitor demo_limits) ?t)) ''commands'' \<noteq> None"
    by code_simp
  then have "concurrencyLimiters s ''commands'' \<noteq> None"
    unfolding s option.sel .
  then obtain l where l: "concurrencyLimiters s ''commands'' = Some l"
    by blast
  have "(''commands'', 0) \<in> set (running (the (run_events (new_monitor demo_limits) ?t)))"
    "queue_of ''commands'' (the (run_events (new_monitor demo_limits) ?t)) = [1]"
    by code_simp+
  then have r: "(''commands'', 0) \<in> set (running s)" and q0: "queue_of ''commands'' s = [1]"
    by (simp_all only: s option.sel)
  from q0 have q: "queue l = [1]"
    by (simp add: queue_of_def l)
  from slot_released_once[OF s l r, of Rejected Fulfilled]
  have "current l = int (in_flight ''commands'' s)
     \<and> (\<exists>s' l'. operation_settles 0 Rejected s = Some s'
           \<and> concurrencyLimiters s' ''commands'' = Some l'
           \<and> current l' = current l - 1
           \<and> current l' = int (in_flight ''commands'' s')
           \<and> (''commands'', 0) \<notin> set (running s')
           \<and> operation_settles 0 Fulfilled s' = None
           \<and> jobs s' = jobs s @ [(''commands'', 1)] \<and> queue l' = [])"
    unfolding q list.case .
  with s l r q show ?thesis by blast
qed

text \<open>
  Two calls one after the other on a single-slot category: the second is queued, cannot
  be resumed while the first is in flight, and starts only after the first has settled.
\<close>

lemma two_calls_serialised:
  "outcome_for ''commands''
      (run_events (new_monitor demo_limits) [Call ''commands'', Call ''commands''])
     = Some (1, 1, [0])
   \<and> run_events (new_monitor demo_limits) [Call ''commands'', Call ''commands'', Resume] = None
   \<and> outcome_for ''commands''
        (run_events (new_monitor demo_limits)
           [Call ''commands'', Call ''commands'', Settle 0 Fulfilled, Resume])
     = Some (1, 1, [1])"
  by code_simp

text \<open>
  Claim C3 says that the operations in flight for a category never exceed its
  \<open>maxConcurrent\<close>. The code admits this run on the single-slot category: call 0 starts,
  call 1 is queued, call 0 settles (which releases call 1 but does not resume it yet), a
  new call 2 finds \<open>current = 0\<close> and starts, and then call 1 is resumed and starts too:
  \<open>current\<close> is 2 with a limit of 1, calls 2 and 1 both in flight.
\<close>

theorem concurrency_limit_overrun:
  "outcome_for ''commands''
      (run_events (new_monitor demo_limits)
         [Call ''commands'', Call ''commands'', Settle 0 Fulfilled, Call ''commands'', Resume])
     = Some (1, 2, [2, 1])"
  by code_simp

end
